theory Spec2Isabelle
  imports Complex_Main
begin

section \<open>Credential store (main.py, class BindingStore)\<close>

text \<open>
  A stored binding is the JSON object kept under a user's id. Every key is read with
  \<open>dict.get\<close>, so each field may be missing; the empty object is the record with no
  field at all.
\<close>

record binding =
  username :: "string option"
  password :: "string option"
  bound_at :: "string option"
  updated_at :: "string option"

text \<open>
  The store holds the in-memory document (\<open>_data["bindings"]\<close>) and the copy that
  \<open>_save\<close> last wrote to the file.
\<close>

record BindingStore =
  bindings :: "string \<rightharpoonup> binding"
  saved :: "string \<rightharpoonup> binding"

text \<open>
  The three replies of \<open>bind\<close>, in the order of the source: another account is already
  bound; the password was refreshed; a new binding was created.
\<close>

datatype bind_msg = MsgBoundOtherAccount | MsgPasswordUpdated | MsgBound

definition save :: "BindingStore \<Rightarrow> BindingStore" where
  "save S = S\<lparr>saved := bindings S\<rparr>"

text \<open>
  \<open>bind\<close>. The Fernet encryption of the call is the parameter \<open>encrypt\<close> (it draws a
  fresh nonce and a timestamp, so it is an input of the call); \<open>now1\<close> and \<open>now2\<close> are
  the readings of \<open>_now_str()\<close>, of which the update branch takes one and the creation
  branch two.
\<close>

definition bind ::
  "(string \<Rightarrow> string) \<Rightarrow> string \<Rightarrow> string \<Rightarrow> BindingStore \<Rightarrow> string \<Rightarrow> string \<Rightarrow> string
     \<Rightarrow> (bool \<times> bind_msg) \<times> BindingStore" where
  "bind encrypt now1 now2 S qq_id uname pw =
     (case bindings S qq_id of
        Some existing \<Rightarrow>
          if username existing \<noteq> Some uname then ((False, MsgBoundOtherAccount), S)
          else
            ((True, MsgPasswordUpdated),
             save (S\<lparr>bindings := (bindings S)(qq_id \<mapsto>
                      existing\<lparr>password := Some (encrypt pw), updated_at := Some now1\<rparr>)\<rparr>))
      | None \<Rightarrow>
          ((True, MsgBound),
           save (S\<lparr>bindings := (bindings S)(qq_id \<mapsto>
                    \<lparr>username = Some uname, password = Some (encrypt pw),
                     bound_at = Some now1, updated_at = Some now2\<rparr>)\<rparr>)))"

text \<open>
  \<open>Fernet.decrypt\<close> raises \<open>InvalidToken\<close> on a token that does not decrypt under the
  key; the following \<open>decode("utf-8")\<close> can raise on a plaintext that is not UTF-8.
\<close>

datatype fernet_error = InvalidToken | UnicodeDecodeError

record credentials =
  cred_username :: string
  cred_password :: string
  cred_bound_at :: string
  cred_updated_at :: string

definition get_or :: "string option \<Rightarrow> string \<Rightarrow> string" where
  "get_or v d = (case v of None \<Rightarrow> d | Some x \<Rightarrow> x)"

definition is_empty_binding :: "binding \<Rightarrow> bool" where
  "is_empty_binding b \<longleftrightarrow>
     username b = None \<and> password b = None \<and> bound_at b = None \<and> updated_at b = None"

text \<open>
  \<open>get\<close>. \<open>Inl\<close> is an exception that leaves the method; only \<open>InvalidToken\<close> is caught.
  \<open>if not data\<close> is true for a missing entry and for the empty object.
\<close>

definition get ::
  "(string \<Rightarrow> fernet_error + string) \<Rightarrow> BindingStore \<Rightarrow> string
     \<Rightarrow> fernet_error + credentials option" where
  "get decrypt S qq_id =
     (case bindings S qq_id of
        None \<Rightarrow> Inr None
      | Some data \<Rightarrow>
          if is_empty_binding data then Inr None
          else
            (case decrypt (get_or (password data) '''') of
               Inl InvalidToken \<Rightarrow> Inr None
             | Inl e \<Rightarrow> Inl e
             | Inr plain \<Rightarrow>
                 Inr (Some \<lparr>cred_username = get_or (username data) '''',
                            cred_password = plain,
                            cred_bound_at = get_or (bound_at data) '''',
                            cred_updated_at = get_or (updated_at data) ''''\<rparr>)))"

section \<open>The platform session and its external calls (auto_login.py)\<close>

text \<open>
  A login candidate is one encoding of the secret: the secret itself, or
  \<open>hashlib.<alg>(s.encode()).hexdigest()\<close> of a string \<open>s\<close>. Keeping the algorithm and
  its input apart, instead of the hexadecimal text, shows which encoding each attempt
  carries.
\<close>

datatype digest_alg = MD5 | SHA1 | SHA256

datatype candidate = Plaintext string | HexDigest digest_alg string

text \<open>The request body sent to the answer service by \<open>api_search\<close>.\<close>

record oracle_request =
  req_title :: string
  req_options :: "(string \<times> string) list"
  req_course_name :: string
  req_chapter :: string

text \<open>
  Every exchange with the outside is logged, in order: the home page fetched by
  \<open>check_login_status\<close>, the login page fetched for the key, a login POST (with the
  username, the candidate, the key and how the response was classified), the pause
  between attempts, the discovery pages, a chapter's question page, a request to the
  answer service, and the POST of a chapter's answers (to the form's action).
\<close>

datatype call =
    CheckLogin
  | GetLoginPage
  | PostLogin string candidate "string option" bool
  | HumanDelay
  | GetCourses
  | GetChapters int
  | GetResults int
  | GetExam int
  | OracleRequest oracle_request
  | PostAnswers string "(string \<times> string) list"

record course =
  c_id :: int
  c_name :: string

record chapter_info =
  exam_id :: int
  ch_name :: string

text \<open>
  A question block of a chapter page: the title (absent when the block has no title
  item), the options as (text, value) pairs, and the \<open>name\<close> attribute of the first
  radio or checkbox input (absent when the block has no such input; empty when the
  attribute is missing).
\<close>

record question_ul =
  title :: "string option"
  options :: "(string \<times> string) list"
  input_name :: "string option"

text \<open>
  What fetching a chapter page gives: an exception, or a response with its status and,
  read only when the status is 200, the \<open>action\<close> of the answer form (absent when the
  page has no such form) and the question blocks.
\<close>

datatype exam_fetch =
    ExamRaised
  | ExamPage nat "string option" "question_ul list"

datatype oracle_body = NotJson | NotSuccess | DataNotObject | CorrectAnswer "string option"

datatype oracle_reply = Timeout | ConnectionError | OtherError | Response nat oracle_body

datatype post_reply = PostRaised | PostStatus nat

record bank_question =
  question_text :: "string option"
  selected_answer :: "string option"

type_synonym bank = "(string \<times> bank_question list) list"

text \<open>
  The outside world answers each call as a function of everything exchanged so far,
  so a server that changes its mind from one request to the next is covered.
  \<open>w_check_login\<close> is the verdict of \<open>check_login_status\<close> on the home page,
  \<open>w_login_key\<close> the result of \<open>get_csrf_token_and_key\<close>, \<open>w_login\<close> the classification
  of a login response by \<open>test_login_with_password_format\<close>; \<open>w_courses\<close> and
  \<open>w_chapters\<close> are the entries parsed out of the listing pages before duplicates are
  dropped (empty when the page cannot be fetched), \<open>w_results\<close> the scored entries
  (exam id, name, score) found on a course's results page, \<open>w_cancel\<close> the reading of the
  task's cancel flag, and \<open>w_bank\<close> the content of the question-bank file.
\<close>

record world =
  w_check_login :: "call list \<Rightarrow> bool"
  w_login_key :: "call list \<Rightarrow> string option"
  w_login :: "call list \<Rightarrow> string \<Rightarrow> candidate \<Rightarrow> string option \<Rightarrow> bool"
  w_courses :: "call list \<Rightarrow> course list"
  w_chapters :: "call list \<Rightarrow> int \<Rightarrow> chapter_info list"
  w_results :: "call list \<Rightarrow> int \<Rightarrow> (int \<times> string \<times> string) list"
  w_exam :: "call list \<Rightarrow> int \<Rightarrow> exam_fetch"
  w_oracle :: "call list \<Rightarrow> oracle_request \<Rightarrow> oracle_reply"
  w_post :: "call list \<Rightarrow> string \<Rightarrow> (string \<times> string) list \<Rightarrow> post_reply"
  w_cancel :: "call list \<Rightarrow> bool"
  w_bank :: bank

record completed_info =
  ci_name :: string
  ci_score :: string
  ci_course_id :: int
  ci_course_name :: string

text \<open>The fields of a \<open>QuizBot\<close> instance that the pipeline reads or writes, and the log.\<close>

record QuizBot =
  login_username :: string
  login_password :: string
  question_bank :: bank
  api_available :: bool
  api_error_count :: nat
  completed_chapters :: "int \<rightharpoonup> completed_info"
  completed_chapters_loaded :: bool
  trace :: "call list"

definition log_call :: "call \<Rightarrow> QuizBot \<Rightarrow> QuizBot" where
  "log_call c b = b\<lparr>trace := trace b @ [c]\<rparr>"

definition truthy :: "string option \<Rightarrow> bool" where
  "truthy v \<longleftrightarrow> (case v of None \<Rightarrow> False | Some s \<Rightarrow> s \<noteq> [])"

definition check_login_status :: "world \<Rightarrow> QuizBot \<Rightarrow> bool \<times> QuizBot" where
  "check_login_status W b = (w_check_login W (trace b), log_call CheckLogin b)"

definition get_csrf_token_and_key :: "world \<Rightarrow> QuizBot \<Rightarrow> string option \<times> QuizBot" where
  "get_csrf_token_and_key W b = (w_login_key W (trace b), log_call GetLoginPage b)"

text \<open>
  \<open>generate_password_hash\<close>. The whole body sits in a \<open>try\<close> whose handler returns the
  plain password alone; the only operations that can raise are the \<open>encode()\<close> calls,
  whose success is the parameter \<open>encodable\<close>. \<open>if key\<close> holds for a key that is present
  and not empty.
\<close>

definition generate_password_hash ::
  "(string \<Rightarrow> bool) \<Rightarrow> string \<Rightarrow> string option \<Rightarrow> candidate list" where
  "generate_password_hash encodable pw key =
     (if \<not> encodable pw then [Plaintext pw]
      else
        let candidates =
              [Plaintext pw, HexDigest MD5 pw, HexDigest SHA1 pw, HexDigest SHA256 pw]
        in (case key of
              None \<Rightarrow> candidates
            | Some k \<Rightarrow>
                if k = [] then candidates
                else if encodable (pw @ k) \<and> encodable (k @ pw) then
                  candidates @
                    [HexDigest MD5 (pw @ k), HexDigest MD5 (k @ pw),
                     HexDigest SHA1 (pw @ k), HexDigest SHA256 (pw @ k)]
                else [Plaintext pw]))"

definition human_like_delay :: "QuizBot \<Rightarrow> QuizBot" where
  "human_like_delay b = log_call HumanDelay b"

definition test_login_with_password_format ::
  "world \<Rightarrow> candidate \<Rightarrow> string option \<Rightarrow> QuizBot \<Rightarrow> bool \<times> QuizBot" where
  "test_login_with_password_format W password_format key b =
     (let ok = w_login W (trace b) (login_username b) password_format key
      in (ok, log_call (PostLogin (login_username b) password_format key ok) b))"

text \<open>
  The loop of \<open>analyze_network_request\<close> over the candidates: \<open>n\<close> is the number of
  candidates and \<open>i\<close> the index of the current one.
\<close>

fun try_candidates ::
  "world \<Rightarrow> string option \<Rightarrow> nat \<Rightarrow> nat \<Rightarrow> candidate list \<Rightarrow> QuizBot \<Rightarrow> bool \<times> QuizBot" where
  "try_candidates W key n i [] b = (False, b)"
| "try_candidates W key n i (password_format # rest) b =
     (case test_login_with_password_format W password_format key b of
        (True, b1) \<Rightarrow> (True, b1)
      | (False, b1) \<Rightarrow>
          try_candidates W key n (Suc i) rest
            (if int i < int n - 1 then human_like_delay b1 else b1))"

definition analyze_network_request ::
  "world \<Rightarrow> (string \<Rightarrow> bool) \<Rightarrow> QuizBot \<Rightarrow> bool \<times> QuizBot" where
  "analyze_network_request W encodable b =
     (case get_csrf_token_and_key W b of
        (key, b1) \<Rightarrow>
          (let password_candidates = generate_password_hash encodable (login_password b1) key
           in try_candidates W key (length password_candidates) 0 password_candidates b1))"

text \<open>The calls a bot has made since an earlier state of it, and the login attempts among calls.\<close>

definition calls_since :: "QuizBot \<Rightarrow> QuizBot \<Rightarrow> call list" where
  "calls_since b b' = drop (length (trace b)) (trace b')"


text \<open>
  \<open>QuizBot.__init__\<close> as called by \<open>_create_bot\<close>: an empty bank, the answer service
  enabled with no error counted, nothing known about completed chapters, nothing logged.
\<close>

definition create_bot :: "string \<Rightarrow> string \<Rightarrow> QuizBot" where
  "create_bot uname pw =
     \<lparr>login_username = uname, login_password = pw, question_bank = [],
      api_available = True, api_error_count = 0, completed_chapters = Map.empty,
      completed_chapters_loaded = False, trace = []\<rparr>"

text \<open>
  A world for concrete runs: nobody is logged in, the login page yields no key, every
  login is refused, every page and the answer service fail. Examples override the fields
  they need.
\<close>

definition silent_world :: world where
  "silent_world =
     \<lparr>w_check_login = (\<lambda>h. False), w_login_key = (\<lambda>h. None),
      w_login = (\<lambda>h u c k. False), w_courses = (\<lambda>h. []), w_chapters = (\<lambda>h cid. []),
      w_results = (\<lambda>h cid. []), w_exam = (\<lambda>h eid. ExamRaised),
      w_oracle = (\<lambda>h r. Timeout), w_post = (\<lambda>h action d. PostRaised),
      w_cancel = (\<lambda>h. False), w_bank = []\<rparr>"

section \<open>Answer resolution (smart_quiz_api.py)\<close>

text \<open>\<open>is_answer_in_local_bank\<close>: some recorded question of some chapter has this text.\<close>

definition is_answer_in_local_bank :: "bank \<Rightarrow> string \<Rightarrow> bool" where
  "is_answer_in_local_bank qbank qtext \<longleftrightarrow>
     list_ex (\<lambda>q. question_text q = Some qtext) (concat (map snd qbank))"

text \<open>
  The first strategy of \<open>find_answer\<close>: the chapters in order, the questions of each in
  order, the first one with this text and a non-empty recorded answer.
\<close>

definition local_answer :: "bank \<Rightarrow> string \<Rightarrow> string option" where
  "local_answer qbank qtext =
     (case List.find (\<lambda>q. question_text q = Some qtext \<and> truthy (selected_answer q))
             (concat (map snd qbank)) of
        None \<Rightarrow> None
      | Some q \<Rightarrow> selected_answer q)"

definition count_error :: "QuizBot \<Rightarrow> QuizBot" where
  "count_error b = b\<lparr>api_error_count := api_error_count b + 1\<rparr>"

text \<open>The end of \<open>api_search\<close>, reached on every path that returns no answer.\<close>

definition disable_after_errors :: "QuizBot \<Rightarrow> QuizBot" where
  "disable_after_errors b = (if api_error_count b \<ge> 3 then b\<lparr>api_available := False\<rparr> else b)"

text \<open>
  \<open>api_search\<close>: no request at all once the service is disabled or three errors are
  counted; otherwise exactly one request. A 200 response with a non-empty
  \<open>correctAnswer\<close> resets the count; a 200 response without one changes nothing; a
  body that is not JSON, a \<open>data\<close> member that is no object (both raise inside the
  \<open>try\<close>), any other status and any exception of the request count one error.
\<close>

definition api_search :: "world \<Rightarrow> oracle_request \<Rightarrow> QuizBot \<Rightarrow> string option \<times> QuizBot" where
  "api_search W req b =
     (if \<not> api_available b then (None, b)
      else if api_error_count b \<ge> 3 then (None, b)
      else
        (let b1 = log_call (OracleRequest req) b in
         case w_oracle W (trace b) req of
           Response code body \<Rightarrow>
             if code = 200 then
               (case body of
                  CorrectAnswer answer \<Rightarrow>
                    if truthy answer then (answer, b1\<lparr>api_error_count := 0\<rparr>)
                    else (None, disable_after_errors b1)
                | NotSuccess \<Rightarrow> (None, disable_after_errors b1)
                | NotJson \<Rightarrow> (None, disable_after_errors (count_error b1))
                | DataNotObject \<Rightarrow> (None, disable_after_errors (count_error b1)))
             else if code = 404 then (None, disable_after_errors (count_error b1))
             else if code = 401 then (None, disable_after_errors (count_error b1))
             else (None, disable_after_errors (count_error b1))
         | Timeout \<Rightarrow> (None, disable_after_errors (count_error b1))
         | ConnectionError \<Rightarrow> (None, disable_after_errors (count_error b1))
         | OtherError \<Rightarrow> (None, disable_after_errors (count_error b1))))"

definition find_answer ::
  "world \<Rightarrow> string \<Rightarrow> (string \<times> string) list \<Rightarrow> string \<Rightarrow> string \<Rightarrow> QuizBot
     \<Rightarrow> string option \<times> QuizBot" where
  "find_answer W qtext opts cname chname b =
     (case local_answer (question_bank b) qtext of
        Some answer \<Rightarrow> (Some answer, b)
      | None \<Rightarrow>
          api_search W
            \<lparr>req_title = qtext, req_options = opts, req_course_name = cname,
             req_chapter = chname\<rparr> b)"

text \<open>The replies of the answer service that count one error in \<open>api_search\<close>.\<close>

fun oracle_failure :: "oracle_reply \<Rightarrow> bool" where
  "oracle_failure (Response code body) =
     (if code = 200 then body = NotJson \<or> body = DataNotObject else True)"
| "oracle_failure _ = True"

text \<open>The replies that carry an answer \<open>api_search\<close> accepts.\<close>

fun oracle_success :: "oracle_reply \<Rightarrow> bool" where
  "oracle_success (Response code (CorrectAnswer answer)) = (code = 200 \<and> truthy answer)"
| "oracle_success _ = False"

definition oracle_disabled :: "QuizBot \<Rightarrow> bool" where
  "oracle_disabled b \<longleftrightarrow> \<not> api_available b \<or> api_error_count b \<ge> 3"

fun oracle_requests :: "call list \<Rightarrow> oracle_request list" where
  "oracle_requests [] = []"
| "oracle_requests (OracleRequest r # cs) = r # oracle_requests cs"
| "oracle_requests (_ # cs) = oracle_requests cs"

text \<open>
  Resolving a list of questions (text and options) one after the other on the same
  bot, as the question loop of a chapter does.
\<close>

fun find_answers ::
  "world \<Rightarrow> string \<Rightarrow> string \<Rightarrow> (string \<times> (string \<times> string) list) list \<Rightarrow> QuizBot
     \<Rightarrow> string option list \<times> QuizBot" where
  "find_answers W cname chname [] b = ([], b)"
| "find_answers W cname chname ((qtext, opts) # rest) b =
     (case find_answer W qtext opts cname chname b of
        (answer, b1) \<Rightarrow>
          (case find_answers W cname chname rest b1 of
             (answers, b2) \<Rightarrow> (answer # answers, b2)))"

section \<open>Answering one chapter (smart_quiz_api.py, auto_answer_with_report)\<close>

datatype report_status = StatusError | InsufficientAnswers | Prepared | Submitted

text \<open>
  The messages of a report, in the order of the source: the initial empty message; page
  not fetched (with the status); no form; no question list; no question parsed; answers
  missing in strict mode; coverage below the minimum rate; prepared without submitting;
  no answer generated; submitted; submission refused (with the status); an exception.
\<close>

datatype report_message =
    NoMessage
  | AccessFailed nat
  | NoForm
  | NoQuestionList
  | NoQuestionsParsed
  | MissingAnswers
  | CoverageBelowRate
  | PreparedNotSubmitted
  | NoAnswersGenerated
  | SubmitOk
  | SubmitFailed nat
  | AnswerException

record report =
  r_success :: bool
  r_status :: report_status
  r_message :: report_message
  r_total :: nat
  r_answered :: nat
  r_local :: nat
  r_api :: nat
  r_missing :: nat
  r_missing_samples :: "string list"

definition initial_report :: report where
  "initial_report =
     \<lparr>r_success = False, r_status = StatusError, r_message = NoMessage, r_total = 0,
      r_answered = 0, r_local = 0, r_api = 0, r_missing = 0, r_missing_samples = []\<rparr>"

text \<open>\<open>d[k] = v\<close> on a dictionary kept in insertion order.\<close>

fun dict_set :: "'k \<Rightarrow> 'v \<Rightarrow> ('k \<times> 'v) list \<Rightarrow> ('k \<times> 'v) list" where
  "dict_set k v [] = [(k, v)]"
| "dict_set k v ((k', v') # kvs) =
     (if k' = k then (k, v) # kvs else (k', v') # dict_set k v kvs)"

text \<open>The local variables and counters of the question loop.\<close>

record answer_loop =
  answer_data :: "(string \<times> string) list"
  total :: nat
  answered :: nat
  local_count :: nat
  api_count :: nat
  failed_count :: nat
  missing_samples :: "string list"

definition initial_loop :: answer_loop where
  "initial_loop =
     \<lparr>answer_data = [], total = 0, answered = 0, local_count = 0, api_count = 0,
      failed_count = 0, missing_samples = []\<rparr>"

definition note_missing :: "string \<Rightarrow> answer_loop \<Rightarrow> answer_loop" where
  "note_missing qtext st =
     st\<lparr>failed_count := failed_count st + 1,
        missing_samples :=
          (if length (missing_samples st) < 5 then missing_samples st @ [take 60 qtext]
           else missing_samples st)\<rparr>"

definition note_answer :: "bank \<Rightarrow> string \<Rightarrow> string \<Rightarrow> string \<Rightarrow> answer_loop \<Rightarrow> answer_loop" where
  "note_answer qbank qtext name answer st =
     (let st1 = st\<lparr>answer_data := dict_set name answer (answer_data st),
                   answered := answered st + 1\<rparr>
      in if is_answer_in_local_bank qbank qtext
         then st1\<lparr>local_count := local_count st1 + 1\<rparr>
         else st1\<lparr>api_count := api_count st1 + 1\<rparr>)"

text \<open>
  What the loop body does with the answer found for a titled question: the question is
  counted; without an answer it is counted as missing; with an answer and a named input
  the answer is stored and counted; with an answer but no named input nothing more.
\<close>

definition record_answer ::
  "bank \<Rightarrow> question_ul \<Rightarrow> string \<Rightarrow> string option \<Rightarrow> answer_loop \<Rightarrow> answer_loop" where
  "record_answer qbank q_ul qtext answer st =
     (let st1 = st\<lparr>total := total st + 1\<rparr> in
      case answer of
        None \<Rightarrow> note_missing qtext st1
      | Some a \<Rightarrow>
          if a = [] then note_missing qtext st1
          else if truthy (input_name q_ul)
          then note_answer qbank qtext (get_or (input_name q_ul) '''') a st1
          else st1)"

text \<open>
  The loop over the question blocks. A block without a title is skipped before it is
  counted.
\<close>

fun answer_questions ::
  "world \<Rightarrow> string \<Rightarrow> string \<Rightarrow> question_ul list \<Rightarrow> answer_loop \<Rightarrow> QuizBot
     \<Rightarrow> answer_loop \<times> QuizBot" where
  "answer_questions W cname chname [] st b = (st, b)"
| "answer_questions W cname chname (q_ul # rest) st b =
     (case title q_ul of
        None \<Rightarrow> answer_questions W cname chname rest st b
      | Some qtext \<Rightarrow>
          (case find_answer W qtext (options q_ul) cname chname b of
             (answer, b1) \<Rightarrow>
               answer_questions W cname chname rest
                 (record_answer (question_bank b1) q_ul qtext answer st) b1))"

text \<open>
  \<open>auto_answer_with_report\<close>. \<open>below_rate answered total\<close> stands for the comparison
  \<open>answered / total < min_answer_rate\<close>, which the source makes on floating-point
  numbers; with a minimum rate of zero it is never true.
\<close>

definition auto_answer_with_report ::
  "world \<Rightarrow> int \<Rightarrow> string \<Rightarrow> string \<Rightarrow> bool \<Rightarrow> bool \<Rightarrow> (nat \<Rightarrow> nat \<Rightarrow> bool) \<Rightarrow> QuizBot
     \<Rightarrow> report \<times> QuizBot" where
  "auto_answer_with_report W eid cname chname submit strict below_rate b =
     (let b0 = log_call (GetExam eid) b in
      case w_exam W (trace b) eid of
        ExamRaised \<Rightarrow> (initial_report\<lparr>r_message := AnswerException\<rparr>, b0)
      | ExamPage code form question_uls \<Rightarrow>
          if code \<noteq> 200 then (initial_report\<lparr>r_message := AccessFailed code\<rparr>, b0)
          else
            (case form of
               None \<Rightarrow> (initial_report\<lparr>r_message := NoForm\<rparr>, b0)
             | Some action \<Rightarrow>
                 if question_uls = [] then (initial_report\<lparr>r_message := NoQuestionList\<rparr>, b0)
                 else
                   (case answer_questions W cname chname question_uls initial_loop b0 of
                      (st, b1) \<Rightarrow>
                        (let rep = initial_report\<lparr>r_total := total st, r_answered := answered st,
                                     r_local := local_count st, r_api := api_count st,
                                     r_missing := failed_count st,
                                     r_missing_samples := missing_samples st\<rparr>
                         in if r_total rep = 0 then (rep\<lparr>r_message := NoQuestionsParsed\<rparr>, b1)
                            else if strict \<and> r_missing rep > 0 then
                              (rep\<lparr>r_status := InsufficientAnswers, r_message := MissingAnswers\<rparr>, b1)
                            else if below_rate (r_answered rep) (r_total rep) then
                              (rep\<lparr>r_status := InsufficientAnswers,
                                   r_message := CoverageBelowRate\<rparr>, b1)
                            else if \<not> submit then
                              (rep\<lparr>r_status := Prepared, r_message := PreparedNotSubmitted,
                                   r_success := True\<rparr>, b1)
                            else if answer_data st = [] then
                              (rep\<lparr>r_message := NoAnswersGenerated\<rparr>, b1)
                            else
                              (let b2 = log_call (PostAnswers action (answer_data st)) b1 in
                               case w_post W (trace b1) action (answer_data st) of
                                 PostRaised \<Rightarrow> (rep\<lparr>r_message := AnswerException\<rparr>, b2)
                               | PostStatus pcode \<Rightarrow>
                                   if pcode = 200 then
                                     (rep\<lparr>r_status := Submitted, r_message := SubmitOk,
                                          r_success := True\<rparr>,
                                      b2\<lparr>completed_chapters_loaded := False\<rparr>)
                                   else (rep\<lparr>r_message := SubmitFailed pcode\<rparr>, b2))))))"

fun is_post_answers :: "call \<Rightarrow> bool" where
  "is_post_answers (PostAnswers action d) = True"
| "is_post_answers _ = False"

section \<open>Tasks and the pipeline of one task (main.py)\<close>

datatype task_status = Queued | Running | Canceling | Completed | Failed | Canceled

text \<open>
  The four modes \<open>_parse_mode\<close> produces (all chapters, incomplete ones, an explicit
  list, a range) and any other text.
\<close>

datatype task_mode = ModeAll | ModeIncomplete | ModeExplicit | ModeRange | ModeOther

text \<open>What the pipeline can stop with, and what a finished run reports.\<close>

datatype stop_reason =
    TaskCanceledReason
  | ReportReason report_message
  | ChapterFailures "(string \<times> report_message) list"
  | FailedChapterCount nat

datatype exec_error =
    NoBindingFound
  | LoginFailed
  | CourseMissing
  | NoChaptersFetched
  | UnknownMode
  | NoChapterSelected
  | StoppedBecause stop_reason

record summary =
  s_success :: nat
  s_failed :: nat
  s_total :: nat
  s_skipped :: nat
  s_invalid :: nat
  s_submit_failed :: nat
  s_stopped :: "stop_reason option"

record exec_result =
  res_success :: bool
  res_summary :: "summary option"
  res_error :: "exec_error option"
  res_canceled :: bool

text \<open>The exceptions that leave \<open>_execute_task_sync\<close>.\<close>

datatype exec_exception =
    RangeFormatError
  | RangeValueError
  | IntValueError
  | StoreError fernet_error

text \<open>
  What \<open>task.error\<close> holds after a run: the \<open>error\<close> entry of the result, or the text
  of the exception that left the run.
\<close>

datatype task_error = ResultError exec_error | ExceptionText exec_exception

text \<open>
  Times are readings of \<open>time.time()\<close>; only their order and their difference are used.
\<close>

record QuizTask =
  task_id :: string
  qq_id :: string
  sender_name :: string
  umo :: string
  course_id :: "int option"
  course_name :: "string option"
  mode :: task_mode
  spec :: string
  status :: task_status
  created_at :: real
  started_at :: "real option"
  finished_at :: "real option"
  cancel_event :: bool
  summary :: "summary option"
  error :: "task_error option"

text \<open>
  The plugin configuration read by the pipeline. \<open>below_min_rate answered total\<close> is
  the comparison \<open>answered / total < min_answer_rate\<close> of the source.
\<close>

record config =
  strict_mode :: bool
  auto_submit :: bool
  below_min_rate :: "nat \<Rightarrow> nat \<Rightarrow> bool"

subsection \<open>Text helpers\<close>

text \<open>\<open>str.split(sep)\<close> with a one-character separator.\<close>

fun split_on :: "char \<Rightarrow> string \<Rightarrow> string list" where
  "split_on sep [] = [[]]"
| "split_on sep (c # cs) =
     (if c = sep then [] # split_on sep cs
      else (case split_on sep cs of
              [] \<Rightarrow> [[c]]
            | x # xs \<Rightarrow> (c # x) # xs))"

definition is_space :: "char \<Rightarrow> bool" where
  "is_space c \<longleftrightarrow> (let n = (of_char c :: nat) in (9 \<le> n \<and> n \<le> 13) \<or> (28 \<le> n \<and> n \<le> 32))"

definition strip :: "string \<Rightarrow> string" where
  "strip s = rev (dropWhile is_space (rev (dropWhile is_space s)))"

definition is_digit :: "char \<Rightarrow> bool" where
  "is_digit c \<longleftrightarrow> (let n = (of_char c :: nat) in 48 \<le> n \<and> n \<le> 57)"

definition isdigit :: "string \<Rightarrow> bool" where
  "isdigit s \<longleftrightarrow> s \<noteq> [] \<and> list_all is_digit s"

definition decimal :: "string \<Rightarrow> int" where
  "decimal s = foldl (\<lambda>acc c. 10 * acc + (int (of_char c) - 48)) 0 s"

text \<open>
  \<open>int(text)\<close> on ASCII text: surrounding white space, an optional sign, then decimal
  digits, where single underscores may separate groups of digits. \<open>None\<close> is
  \<open>ValueError\<close>.
\<close>

definition py_int :: "string \<Rightarrow> int option" where
  "py_int s =
     (let t = strip s;
          negative = (t \<noteq> [] \<and> hd t = CHR ''-'');
          body = (if t \<noteq> [] \<and> (hd t = CHR ''-'' \<or> hd t = CHR ''+'') then tl t else t)
      in if list_all isdigit (split_on CHR ''_'' body)
         then Some ((if negative then - 1 else 1) * decimal (filter (\<lambda>c. c \<noteq> CHR ''_'') body))
         else None)"

subsection \<open>Chapter selection\<close>

definition parse_index_list :: "string \<Rightarrow> int list" where
  "parse_index_list text =
     sort (remdups (map decimal (filter isdigit (map strip (split_on CHR '','' text)))))"

definition parse_range :: "string \<Rightarrow> exec_exception + (int \<times> int)" where
  "parse_range text =
     (case split_on CHR ''-'' text of
        [p0, p1] \<Rightarrow>
          (case py_int p0 of
             None \<Rightarrow> Inl IntValueError
           | Some start \<Rightarrow>
               (case py_int p1 of
                  None \<Rightarrow> Inl IntValueError
                | Some end \<Rightarrow>
                    if start \<le> 0 \<or> end \<le> 0 \<or> start > end then Inl RangeValueError
                    else Inr (start, end)))
      | _ \<Rightarrow> Inl RangeFormatError)"

text \<open>The comprehension \<open>[c for c in xs if not (key(c) in seen or seen.add(key(c)))]\<close>.\<close>

fun dedup_on :: "('a \<Rightarrow> int) \<Rightarrow> int list \<Rightarrow> 'a list \<Rightarrow> 'a list" where
  "dedup_on key seen [] = []"
| "dedup_on key seen (x # xs) =
     (if key x \<in> set seen then dedup_on key seen xs
      else x # dedup_on key (key x # seen) xs)"

definition get_all_courses :: "world \<Rightarrow> QuizBot \<Rightarrow> course list \<times> QuizBot" where
  "get_all_courses W b = (dedup_on c_id [] (w_courses W (trace b)), log_call GetCourses b)"

definition get_chapters :: "world \<Rightarrow> int \<Rightarrow> QuizBot \<Rightarrow> chapter_info list \<times> QuizBot" where
  "get_chapters W course b =
     (dedup_on exam_id [] (w_chapters W (trace b) course), log_call (GetChapters course) b)"

text \<open>
  \<open>load_completed_chapters\<close>: the session is checked (and established when needed),
  the courses are listed, and each course's results page adds the exams it scores that
  are not recorded yet. When login fails or no course is listed the bot's record of
  completed chapters stays as it was.
\<close>

fun add_completed ::
  "course \<Rightarrow> (int \<times> string \<times> string) list \<Rightarrow> (int \<rightharpoonup> completed_info)
     \<Rightarrow> (int \<rightharpoonup> completed_info)" where
  "add_completed c [] acc = acc"
| "add_completed c ((eid, name, score) # es) acc =
     add_completed c es
       (case acc eid of
          Some info \<Rightarrow> acc
        | None \<Rightarrow> acc(eid \<mapsto> \<lparr>ci_name = name, ci_score = score, ci_course_id = c_id c,
                                ci_course_name = c_name c\<rparr>))"

fun scan_results ::
  "world \<Rightarrow> course list \<Rightarrow> (int \<rightharpoonup> completed_info) \<Rightarrow> QuizBot
     \<Rightarrow> (int \<rightharpoonup> completed_info) \<times> QuizBot" where
  "scan_results W [] acc b = (acc, b)"
| "scan_results W (c # cs) acc b =
     scan_results W cs (add_completed c (w_results W (trace b) (c_id c)) acc)
       (log_call (GetResults (c_id c)) b)"

definition load_completed_chapters :: "world \<Rightarrow> (string \<Rightarrow> bool) \<Rightarrow> QuizBot \<Rightarrow> QuizBot" where
  "load_completed_chapters W encodable b =
     (case check_login_status W b of
        (logged_in, b1) \<Rightarrow>
          (case (if logged_in then (True, b1) else analyze_network_request W encodable b1) of
             (False, b2) \<Rightarrow> b2
           | (True, b2) \<Rightarrow>
               (case get_all_courses W b2 of
                  (courses, b3) \<Rightarrow>
                    if courses = [] then b3
                    else
                      (case scan_results W courses Map.empty b3 of
                         (completed, b4) \<Rightarrow>
                           b4\<lparr>completed_chapters := completed,
                              completed_chapters_loaded := True\<rparr>))))"

datatype 'a stage = Raise exec_exception | Return exec_error | Continue 'a

text \<open>The selection stage of \<open>_execute_task_sync\<close>, on the chapters already fetched.\<close>

definition select_chapters ::
  "world \<Rightarrow> (string \<Rightarrow> bool) \<Rightarrow> task_mode \<Rightarrow> string \<Rightarrow> chapter_info list \<Rightarrow> QuizBot
     \<Rightarrow> chapter_info list stage \<times> QuizBot" where
  "select_chapters W encodable m text chapters b =
     (case m of
        ModeIncomplete \<Rightarrow>
          (let b1 = load_completed_chapters W encodable b
           in (Continue (filter (\<lambda>ch. completed_chapters b1 (exam_id ch) = None) chapters), b1))
      | ModeExplicit \<Rightarrow>
          (Continue (map (\<lambda>i. chapters ! nat (i - 1))
                       (filter (\<lambda>i. 0 < i \<and> i \<le> int (length chapters)) (parse_index_list text))),
           b)
      | ModeRange \<Rightarrow>
          (case parse_range text of
             Inl e \<Rightarrow> (Raise e, b)
           | Inr (start, end) \<Rightarrow>
               (Continue (drop (nat (start - 1)) (take (nat end) chapters)), b))
      | ModeAll \<Rightarrow> (Continue chapters, b)
      | ModeOther \<Rightarrow> (Return UnknownMode, b))"

subsection \<open>The chapter loop\<close>

record loop_acc =
  success_count :: nat
  fail_count :: nat
  skipped_count :: nat
  submit_failed :: nat
  invalid_count :: nat
  failure_examples :: "(string \<times> report_message) list"
  stopped_reason :: "stop_reason option"
  canceled :: bool

definition initial_acc :: loop_acc where
  "initial_acc =
     \<lparr>success_count = 0, fail_count = 0, skipped_count = 0, submit_failed = 0,
      invalid_count = 0, failure_examples = [], stopped_reason = None, canceled = False\<rparr>"

text \<open>
  The bookkeeping for a report that is not a success. A report never carries an
  \<open>http_status\<close> or an \<open>invalid\<close> entry, so the two counters that read them stay put.
\<close>

definition note_failure :: "chapter_info \<Rightarrow> report \<Rightarrow> loop_acc \<Rightarrow> loop_acc" where
  "note_failure ch rep acc =
     acc\<lparr>fail_count := fail_count acc + 1,
         failure_examples :=
           (if r_message rep \<noteq> NoMessage \<and> length (failure_examples acc) < 3
            then failure_examples acc @ [(ch_name ch, r_message rep)]
            else failure_examples acc)\<rparr>"

fun run_chapters ::
  "world \<Rightarrow> config \<Rightarrow> string \<Rightarrow> chapter_info list \<Rightarrow> loop_acc \<Rightarrow> QuizBot
     \<Rightarrow> loop_acc \<times> QuizBot" where
  "run_chapters W cfg cname [] acc b = (acc, b)"
| "run_chapters W cfg cname (ch # rest) acc b =
     (if w_cancel W (trace b) then
        (acc\<lparr>stopped_reason := Some TaskCanceledReason, canceled := True\<rparr>, b)
      else
        (case auto_answer_with_report W (exam_id ch) cname (ch_name ch)
                (auto_submit cfg) (strict_mode cfg) (below_min_rate cfg) b of
           (rep, b1) \<Rightarrow>
             (let acc1 = acc\<lparr>skipped_count := skipped_count acc + r_missing rep\<rparr> in
              if r_success rep then
                run_chapters W cfg cname rest (acc1\<lparr>success_count := success_count acc1 + 1\<rparr>) b1
              else if r_status rep = InsufficientAnswers then
                (if strict_mode cfg then
                   ((note_failure ch rep acc1)\<lparr>stopped_reason := Some (ReportReason (r_message rep))\<rparr>,
                    b1)
                 else
                   run_chapters W cfg cname rest
                     ((note_failure ch rep acc1)\<lparr>stopped_reason :=
                         Some (ReportReason (r_message rep))\<rparr>) b1)
              else run_chapters W cfg cname rest (note_failure ch rep acc1) b1)))"

definition reason_set :: "stop_reason option \<Rightarrow> bool" where
  "reason_set r \<longleftrightarrow> (case r of None \<Rightarrow> False | Some (ReportReason NoMessage) \<Rightarrow> False | Some x \<Rightarrow> True)"

definition finalize :: "loop_acc \<Rightarrow> exec_result" where
  "finalize acc =
     (let stopped =
            (if \<not> reason_set (stopped_reason acc) \<and> fail_count acc > 0 then
               (if failure_examples acc \<noteq> [] then Some (ChapterFailures (failure_examples acc))
                else Some (FailedChapterCount (fail_count acc)))
             else stopped_reason acc)
      in \<lparr>res_success = (fail_count acc = 0 \<and> \<not> reason_set stopped),
          res_summary =
            Some \<lparr>s_success = success_count acc, s_failed = fail_count acc,
                  s_total = success_count acc + fail_count acc, s_skipped = skipped_count acc,
                  s_invalid = invalid_count acc, s_submit_failed = submit_failed acc,
                  s_stopped = stopped\<rparr>,
          res_error = map_option StoppedBecause stopped,
          res_canceled = canceled acc\<rparr>)"

definition failure :: "exec_error \<Rightarrow> exec_result" where
  "failure e = \<lparr>res_success = False, res_summary = None, res_error = Some e, res_canceled = False\<rparr>"

subsection \<open>The whole run\<close>

text \<open>
  \<open>_execute_task_sync\<close>. The result is what the method returns (\<open>Inr\<close>) or the
  exception that leaves it (\<open>Inl\<close>), the task's course name after the run, and the log
  of the calls made.
\<close>

definition execute_task_sync ::
  "world \<Rightarrow> (string \<Rightarrow> bool) \<Rightarrow> config \<Rightarrow> (string \<Rightarrow> fernet_error + string) \<Rightarrow> BindingStore
     \<Rightarrow> QuizTask \<Rightarrow> (exec_exception + exec_result) \<times> string option \<times> call list" where
  "execute_task_sync W encodable cfg decrypt S task =
     (case get decrypt S (qq_id task) of
        Inl e \<Rightarrow> (Inl (StoreError e), course_name task, [])
      | Inr None \<Rightarrow> (Inr (failure NoBindingFound), course_name task, [])
      | Inr (Some binding) \<Rightarrow>
          (case check_login_status W (create_bot (cred_username binding) (cred_password binding)) of
             (logged_in, b1) \<Rightarrow>
               (case (if logged_in then (True, b1) else analyze_network_request W encodable b1) of
                  (False, b2) \<Rightarrow> (Inr (failure LoginFailed), course_name task, trace b2)
                | (True, b2) \<Rightarrow>
                    (case get_all_courses W (b2\<lparr>question_bank := w_bank W\<rparr>) of
                       (courses, b3) \<Rightarrow>
                         (case List.find (\<lambda>c. Some (c_id c) = course_id task) courses of
                            None \<Rightarrow> (Inr (failure CourseMissing), course_name task, trace b3)
                          | Some c \<Rightarrow>
                              (case get_chapters W (c_id c) b3 of
                                 (chapters, b4) \<Rightarrow>
                                   if chapters = [] then
                                     (Inr (failure NoChaptersFetched), Some (c_name c), trace b4)
                                   else
                                     (case select_chapters W encodable (mode task) (spec task)
                                             chapters b4 of
                                        (Raise e, b5) \<Rightarrow> (Inl e, Some (c_name c), trace b5)
                                      | (Return err, b5) \<Rightarrow>
                                          (Inr (failure err), Some (c_name c), trace b5)
                                      | (Continue selected, b5) \<Rightarrow>
                                          if selected = [] then
                                            (Inr (failure NoChapterSelected), Some (c_name c),
                                             trace b5)
                                          else
                                            (case run_chapters W cfg (c_name c) selected
                                                    initial_acc b5 of
                                               (acc, b6) \<Rightarrow>
                                                 (Inr (finalize acc), Some (c_name c),
                                                  trace b6)))))))))"

text \<open>The calls that work on a chapter or fetch completion records.\<close>

fun is_chapter_work :: "call \<Rightarrow> bool" where
  "is_chapter_work (GetResults c) = True"
| "is_chapter_work (GetExam e) = True"
| "is_chapter_work (OracleRequest r) = True"
| "is_chapter_work (PostAnswers a d) = True"
| "is_chapter_work _ = False"

section \<open>Predicates on the log of calls\<close>

text \<open>
  From one state of a bot to a later one: the log only grew, and the calls added are
  none of the calls that work on a chapter or fetch completion records.
\<close>

definition quiet_step :: "QuizBot \<Rightarrow> QuizBot \<Rightarrow> bool" where
  "quiet_step b b' \<longleftrightarrow> (\<exists>ext. trace b' = trace b @ ext \<and> (\<forall>c \<in> set ext. \<not> is_chapter_work c))"

text \<open>The same, for calls that submit answers.\<close>

definition no_post_step :: "QuizBot \<Rightarrow> QuizBot \<Rightarrow> bool" where
  "no_post_step b b' \<longleftrightarrow> (\<exists>ext. trace b' = trace b @ ext \<and> (\<forall>c \<in> set ext. \<not> is_post_answers c))"

section \<open>The task scheduler (main.py, class SmartQuizPlugin)\<close>

text \<open>
  Task objects are shared: the index \<open>_tasks\<close>, the queue and the worker that runs a
  task all refer to the same object, and each of them can change it. The objects live
  in \<open>heap\<close>, addressed by position; the index maps a task id to an address (a
  dictionary in insertion order), the queue is a list of addresses, first in first out.

  A worker is idle, waiting on the queue; or it has taken a task and awaits the sending of
  the start message; or the task runs in its thread; or the task is finished and the
  result message is being sent; or the coroutine has ended with an exception raised by
  the sending of a message.
\<close>

datatype worker = Idle | Starting nat | Executing nat | Reporting nat | Dead

record scheduler =
  heap :: "QuizTask list"
  tasks :: "(string \<times> nat) list"
  queue :: "nat list"
  workers :: "worker list"

definition max_concurrency :: "int \<Rightarrow> nat" where
  "max_concurrency v = (if v < 1 then 1 else if v > 3 then 3 else nat v)"

definition init_scheduler :: "int \<Rightarrow> scheduler" where
  "init_scheduler v =
     \<lparr>heap = [], tasks = [], queue = [], workers = replicate (max_concurrency v) Idle\<rparr>"

definition is_active :: "QuizTask \<Rightarrow> bool" where
  "is_active t \<longleftrightarrow> status t = Queued \<or> status t = Running"

definition is_terminal :: "QuizTask \<Rightarrow> bool" where
  "is_terminal t \<longleftrightarrow> status t = Completed \<or> status t = Failed \<or> status t = Canceled"

definition has_active_task :: "scheduler \<Rightarrow> string \<Rightarrow> bool" where
  "has_active_task s user \<longleftrightarrow>
     list_ex (\<lambda>(tid, a). qq_id (heap s ! a) = user \<and> is_active (heap s ! a)) (tasks s)"

text \<open>
  The replies of the start command: the early returns of its preamble (no binding;
  group not allowed; no argument; no cached chapter list; course not resolved), the
  missing chapter parameter, the refusal because a task is active, and the
  acknowledgement with the task id and the queue position.
\<close>

datatype start_reply =
    ReplyNotBound
  | ReplyGroupNotAllowed
  | ReplyStartUsage
  | ReplyNeedChapterList
  | ReplyCourseNotResolved
  | ReplyNeedSpec
  | ReplyAlreadyActive
  | ReplyQueued string nat

text \<open>
  A start command as \<open>_handle_start\<close> sees it. \<open>sr_preamble\<close> is the outcome of the part
  that precedes the checks on the task table: an early reply, or the course id, the
  course name, the mode and its parameter. \<open>sr_uuid\<close> is the id drawn for the task and
  \<open>sr_now\<close> the clock reading taken when the task object is built.
\<close>

record start_request =
  sr_sender_id :: string
  sr_sender_name :: string
  sr_umo :: string
  sr_preamble :: "start_reply + (int option \<times> string \<times> task_mode \<times> string)"
  sr_uuid :: string
  sr_now :: real

text \<open>
  \<open>_handle_start\<close> from the check of the mode parameter on. Nothing suspends between
  the test \<open>_has_active_task\<close> and the insertion into the index and the queue: the
  lock is free whenever it is requested and the queue has no bound, so the two awaits
  return at once.
\<close>

definition handle_start :: "start_request \<Rightarrow> scheduler \<Rightarrow> start_reply \<times> scheduler" where
  "handle_start req s =
     (case sr_preamble req of
        Inl reply \<Rightarrow> (reply, s)
      | Inr (cid, cname, m, text) \<Rightarrow>
          if (m = ModeExplicit \<or> m = ModeRange) \<and> text = [] then (ReplyNeedSpec, s)
          else if has_active_task s (sr_sender_id req) then (ReplyAlreadyActive, s)
          else
            (let task =
                   \<lparr>task_id = sr_uuid req, qq_id = sr_sender_id req,
                    sender_name = sr_sender_name req, umo = sr_umo req, course_id = cid,
                    course_name = Some cname, mode = m, spec = text, status = Queued,
                    created_at = sr_now req, started_at = None, finished_at = None,
                    cancel_event = False, summary = None, error = None\<rparr>;
                 a = length (heap s)
             in (ReplyQueued (sr_uuid req) (length (queue s) + 1),
                 s\<lparr>heap := heap s @ [task],
                    tasks := dict_set (sr_uuid req) a (tasks s),
                    queue := queue s @ [a]\<rparr>)))"

datatype cancel_reply =
    ReplyCancelUsage
  | ReplyTaskNotFound
  | ReplyTaskFinished
  | ReplyCanceledQueued
  | ReplyCancelRequested

text \<open>The common end of \<open>_handle_cancel\<close> and \<open>_admin_cancel\<close>, on a task that is not terminal.\<close>

definition request_cancel :: "nat \<Rightarrow> real \<Rightarrow> scheduler \<Rightarrow> cancel_reply \<times> scheduler" where
  "request_cancel a now s =
     (let t = (heap s ! a)\<lparr>cancel_event := True\<rparr> in
      if status t = Queued then
        (ReplyCanceledQueued,
         s\<lparr>heap := (heap s)[a := t\<lparr>status := Canceled, finished_at := Some now\<rparr>]\<rparr>)
      else (ReplyCancelRequested, s\<lparr>heap := (heap s)[a := t\<lparr>status := Canceling\<rparr>]\<rparr>))"

definition handle_cancel ::
  "string \<Rightarrow> string list \<Rightarrow> real \<Rightarrow> scheduler \<Rightarrow> cancel_reply \<times> scheduler" where
  "handle_cancel sender args now s =
     (case args of
        [] \<Rightarrow> (ReplyCancelUsage, s)
      | tid # others \<Rightarrow>
          (case map_of (tasks s) tid of
             None \<Rightarrow> (ReplyTaskNotFound, s)
           | Some a \<Rightarrow>
               if qq_id (heap s ! a) \<noteq> sender then (ReplyTaskNotFound, s)
               else if is_terminal (heap s ! a) then (ReplyTaskFinished, s)
               else request_cancel a now s))"

definition admin_cancel :: "string list \<Rightarrow> real \<Rightarrow> scheduler \<Rightarrow> cancel_reply \<times> scheduler" where
  "admin_cancel args now s =
     (case args of
        [] \<Rightarrow> (ReplyCancelUsage, s)
      | tid # others \<Rightarrow>
          (case map_of (tasks s) tid of
             None \<Rightarrow> (ReplyTaskNotFound, s)
           | Some a \<Rightarrow>
               if is_terminal (heap s ! a) then (ReplyTaskFinished, s)
               else request_cancel a now s))"

text \<open>\<open>_cleanup_tasks\<close>: finished tasks older than a day leave the index.\<close>

definition is_stale :: "real \<Rightarrow> QuizTask \<Rightarrow> bool" where
  "is_stale now t \<longleftrightarrow>
     (case finished_at t of None \<Rightarrow> False | Some f \<Rightarrow> f \<noteq> 0 \<and> now - f > 24 * 3600)"

definition cleanup_tasks :: "real \<Rightarrow> scheduler \<Rightarrow> scheduler" where
  "cleanup_tasks now s = s\<lparr>tasks := filter (\<lambda>(tid, a). \<not> is_stale now (heap s ! a)) (tasks s)\<rparr>"

text \<open>
  One turn of \<open>_worker_loop\<close> up to its first await: an idle worker takes the head of
  the queue; a task whose cancel flag is set is marked canceled and the worker goes
  back to waiting; any other task is marked running and the start message is sent.
\<close>

definition worker_get :: "nat \<Rightarrow> real \<Rightarrow> scheduler \<Rightarrow> scheduler" where
  "worker_get i now s =
     (if i < length (workers s) \<and> workers s ! i = Idle then
        (case queue s of
           [] \<Rightarrow> s
         | a # rest \<Rightarrow>
             if cancel_event (heap s ! a) then
               s\<lparr>heap := (heap s)[a := (heap s ! a)\<lparr>status := Canceled, finished_at := Some now\<rparr>],
                  queue := rest\<rparr>
             else
               s\<lparr>heap := (heap s)[a := (heap s ! a)\<lparr>status := Running, started_at := Some now\<rparr>],
                  queue := rest, workers := (workers s)[i := Starting a]\<rparr>)
      else s)"

text \<open>
  The start message was sent, or its sending raised: the exception is raised before
  the \<open>try\<close> of \<open>_run_task\<close>, so it ends the worker and leaves the task running.
\<close>

definition start_sent :: "nat \<Rightarrow> bool \<Rightarrow> scheduler \<Rightarrow> scheduler" where
  "start_sent i ok s =
     (if i < length (workers s) then
        (case workers s ! i of
           Starting a \<Rightarrow> s\<lparr>workers := (workers s)[i := (if ok then Executing a else Dead)]\<rparr>
         | _ \<Rightarrow> s)
      else s)"

text \<open>
  The end of \<open>_run_task\<close>'s \<open>try\<close>: the thread has returned a result or raised, and the
  task gets its summary, its error, its final status and its finishing time. The
  thread itself has written the course name it found.
\<close>

definition finish_task ::
  "exec_exception + exec_result \<Rightarrow> string option \<Rightarrow> real \<Rightarrow> QuizTask \<Rightarrow> QuizTask" where
  "finish_task outcome cname now t =
     (case outcome of
        Inr result \<Rightarrow>
          t\<lparr>course_name := cname, summary := res_summary result,
            error := map_option ResultError (res_error result),
            status := (if res_canceled result then Canceled
                       else if res_success result then Completed else Failed),
            finished_at := Some now\<rparr>
      | Inl e \<Rightarrow>
          t\<lparr>course_name := cname, status := Failed, error := Some (ExceptionText e),
            finished_at := Some now\<rparr>)"

definition exec_done ::
  "nat \<Rightarrow> exec_exception + exec_result \<Rightarrow> string option \<Rightarrow> real \<Rightarrow> scheduler \<Rightarrow> scheduler" where
  "exec_done i outcome cname now s =
     (if i < length (workers s) then
        (case workers s ! i of
           Executing a \<Rightarrow>
             s\<lparr>heap := (heap s)[a := finish_task outcome cname now (heap s ! a)],
                workers := (workers s)[i := Reporting a]\<rparr>
         | _ \<Rightarrow> s)
      else s)"

definition report_sent :: "nat \<Rightarrow> bool \<Rightarrow> scheduler \<Rightarrow> scheduler" where
  "report_sent i ok s =
     (if i < length (workers s) then
        (case workers s ! i of
           Reporting a \<Rightarrow> s\<lparr>workers := (workers s)[i := (if ok then Idle else Dead)]\<rparr>
         | _ \<Rightarrow> s)
      else s)"

text \<open>
  The scheduler moves by the pieces of code that run without suspension: a start
  command, a cancel command of a user or of an administrator, the clean-up, and the
  four steps of a worker. Each carries what the outside supplies to it: the clock
  reading, the outcome of the sending of a message, the outcome of the pipeline.
\<close>

datatype event =
    Start start_request
  | Cancel string "string list" real
  | AdminCancel "string list" real
  | Cleanup real
  | WorkerGet nat real
  | StartSent nat bool
  | ExecDone nat "exec_exception + exec_result" "string option" real
  | ReportSent nat bool

fun step :: "event \<Rightarrow> scheduler \<Rightarrow> scheduler" where
  "step (Start req) s = snd (handle_start req s)"
| "step (Cancel sender args now) s = snd (handle_cancel sender args now s)"
| "step (AdminCancel args now) s = snd (admin_cancel args now s)"
| "step (Cleanup now) s = cleanup_tasks now s"
| "step (WorkerGet i now) s = worker_get i now s"
| "step (StartSent i ok) s = start_sent i ok s"
| "step (ExecDone i outcome cname now) s = exec_done i outcome cname now s"
| "step (ReportSent i ok) s = report_sent i ok s"

fun run :: "event list \<Rightarrow> scheduler \<Rightarrow> scheduler" where
  "run [] s = s"
| "run (e # es) s = run es (step e s)"

text \<open>The clock reading an event carries, and the readings of a run in order.\<close>

fun reading :: "event \<Rightarrow> real option" where
  "reading (Start req) = Some (sr_now req)"
| "reading (Cancel sender args now) = Some now"
| "reading (AdminCancel args now) = Some now"
| "reading (Cleanup now) = Some now"
| "reading (WorkerGet i now) = Some now"
| "reading (ExecDone i outcome cname now) = Some now"
| "reading _ = None"

fun readings :: "event list \<Rightarrow> real list" where
  "readings [] = []"
| "readings (e # es) = (case reading e of None \<Rightarrow> readings es | Some t \<Rightarrow> t # readings es)"


section \<open>Invariants of the scheduler\<close>

text \<open>The task a worker holds while the task is starting or running.\<close>

fun held :: "worker \<Rightarrow> nat option" where
  "held (Starting a) = Some a"
| "held (Executing a) = Some a"
| "held _ = None"

text \<open>
  The index has one entry per task id and refers to existing task objects.
\<close>

definition inv_index :: "scheduler \<Rightarrow> bool" where
  "inv_index s \<longleftrightarrow>
     distinct (map fst (tasks s)) \<and> (\<forall>e \<in> set (tasks s). snd e < length (heap s))"

text \<open>
  The queue holds each task at most once; a task in it is queued, or it was canceled
  while it waited and carries the cancel flag.
\<close>

definition inv_queue :: "scheduler \<Rightarrow> bool" where
  "inv_queue s \<longleftrightarrow>
     distinct (queue s) \<and>
     (\<forall>a \<in> set (queue s). a < length (heap s) \<and>
        status (heap s ! a) = (if cancel_event (heap s ! a) then Canceled else Queued))"

text \<open>
  A task held by a worker has left the queue, is running or being canceled, and is
  held by that worker only.
\<close>

definition inv_workers :: "scheduler \<Rightarrow> bool" where
  "inv_workers s \<longleftrightarrow>
     (\<forall>i < length (workers s). \<forall>a. held (workers s ! i) = Some a \<longrightarrow>
        a < length (heap s) \<and> a \<notin> set (queue s) \<and>
        (status (heap s ! a) = Running \<or> status (heap s ! a) = Canceling) \<and>
        (\<forall>j < length (workers s). held (workers s ! j) = Some a \<longrightarrow> j = i))"

text \<open>No two entries of the index are active tasks of the same user.\<close>

definition inv_active :: "scheduler \<Rightarrow> bool" where
  "inv_active s \<longleftrightarrow>
     (\<forall>e1 \<in> set (tasks s). \<forall>e2 \<in> set (tasks s).
        qq_id (heap s ! snd e1) = qq_id (heap s ! snd e2) \<and>
        is_active (heap s ! snd e1) \<and> is_active (heap s ! snd e2) \<longrightarrow> e1 = e2)"

definition sched_inv :: "scheduler \<Rightarrow> bool" where
  "sched_inv s \<longleftrightarrow> inv_index s \<and> inv_queue s \<and> inv_workers s \<and> inv_active s"

text \<open>
  The times of a task, against the latest clock reading \<open>c\<close>: no time lies after \<open>c\<close>;
  the start is not before the creation and the end not before either; a terminal task
  has its end; a completed or failed task has its start; a queued task has neither; a
  running task has its start and no end.
\<close>

definition times_ok :: "real \<Rightarrow> QuizTask \<Rightarrow> bool" where
  "times_ok c t \<longleftrightarrow>
     created_at t \<le> c \<and>
     (case started_at t of None \<Rightarrow> True | Some b \<Rightarrow> created_at t \<le> b \<and> b \<le> c) \<and>
     (case finished_at t of
        None \<Rightarrow> True
      | Some f \<Rightarrow> created_at t \<le> f \<and> f \<le> c \<and>
          (case started_at t of None \<Rightarrow> True | Some b \<Rightarrow> b \<le> f)) \<and>
     (is_terminal t \<longrightarrow> finished_at t \<noteq> None) \<and>
     (status t = Completed \<or> status t = Failed \<longrightarrow> started_at t \<noteq> None) \<and>
     (status t = Queued \<longrightarrow> started_at t = None \<and> finished_at t = None) \<and>
     (status t = Running \<or> status t = Canceling \<longrightarrow>
        started_at t \<noteq> None \<and> finished_at t = None)"

definition inv_times :: "real \<Rightarrow> scheduler \<Rightarrow> bool" where
  "inv_times c s \<longleftrightarrow> (\<forall>a < length (heap s). times_ok c (heap s ! a))"

text \<open>The latest clock reading after an event.\<close>

definition clock_after :: "real \<Rightarrow> event \<Rightarrow> real" where
  "clock_after c e = (case reading e of None \<Rightarrow> c | Some t \<Rightarrow> t)"

text \<open>
  What an event may not undo on a task: the creation time stays, a start time once set
  stays, and a terminal status stays.
\<close>

definition stable :: "QuizTask \<Rightarrow> QuizTask \<Rightarrow> bool" where
  "stable t t' \<longleftrightarrow>
     created_at t' = created_at t \<and>
     (started_at t \<noteq> None \<longrightarrow> started_at t' = started_at t) \<and>
     (is_terminal t \<longrightarrow> status t' = status t)"

section \<open>Example data for concrete runs\<close>

text \<open>
  One bound user, a platform with one course of three chapters, and a chapter page of five
  questions of which the question bank knows the first four. The answer service
  times out on every request and the platform accepts every submission.
\<close>

definition demo_store :: BindingStore where
  "demo_store =
     \<lparr>bindings = [''10001'' \<mapsto> \<lparr>username = Some ''alice'', password = Some ''token'',
                                   bound_at = Some ''t0'', updated_at = Some ''t0''\<rparr>],
      saved = Map.empty\<rparr>"

definition demo_decrypt :: "string \<Rightarrow> fernet_error + string" where
  "demo_decrypt t = (if t = ''token'' then Inr ''secret'' else Inl InvalidToken)"

definition demo_questions :: "question_ul list" where
  "demo_questions =
     [\<lparr>title = Some ''q1'', options = [(''yes'', ''A''), (''no'', ''B'')], input_name = Some ''n1''\<rparr>,
      \<lparr>title = Some ''q2'', options = [(''yes'', ''A''), (''no'', ''B'')], input_name = Some ''n2''\<rparr>,
      \<lparr>title = Some ''q3'', options = [(''yes'', ''A''), (''no'', ''B'')], input_name = Some ''n3''\<rparr>,
      \<lparr>title = Some ''q4'', options = [(''yes'', ''A''), (''no'', ''B'')], input_name = Some ''n4''\<rparr>,
      \<lparr>title = Some ''q5'', options = [(''yes'', ''A''), (''no'', ''B'')], input_name = Some ''n5''\<rparr>]"

definition demo_bank :: bank where
  "demo_bank =
     [(''ch1'',
       [\<lparr>question_text = Some ''q1'', selected_answer = Some ''A''\<rparr>,
        \<lparr>question_text = Some ''q2'', selected_answer = Some ''B''\<rparr>,
        \<lparr>question_text = Some ''q3'', selected_answer = Some ''A''\<rparr>,
        \<lparr>question_text = Some ''q4'', selected_answer = Some ''B''\<rparr>])]"

definition demo_world :: world where
  "demo_world =
     \<lparr>w_check_login = (\<lambda>h. True), w_login_key = (\<lambda>h. None),
      w_login = (\<lambda>h u c k. False),
      w_courses = (\<lambda>h. [\<lparr>c_id = 7, c_name = ''Course''\<rparr>]),
      w_chapters = (\<lambda>h c. [\<lparr>exam_id = 101, ch_name = ''ch1''\<rparr>,
                             \<lparr>exam_id = 102, ch_name = ''ch2''\<rparr>,
                             \<lparr>exam_id = 103, ch_name = ''ch3''\<rparr>]),
      w_results = (\<lambda>h c. []),
      w_exam = (\<lambda>h e. ExamPage 200 (Some ''/submit'') demo_questions),
      w_oracle = (\<lambda>h r. Timeout), w_post = (\<lambda>h a d. PostStatus 200),
      w_cancel = (\<lambda>h. False), w_bank = demo_bank\<rparr>"

definition demo_task :: "task_mode \<Rightarrow> string \<Rightarrow> QuizTask" where
  "demo_task m text =
     \<lparr>task_id = ''0a1b2c3d'', qq_id = ''10001'', sender_name = ''Alice'', umo = ''private'',
      course_id = Some 7, course_name = Some ''Course'', mode = m, spec = text,
      status = Queued, created_at = 100, started_at = None, finished_at = None,
      cancel_event = False, summary = None, error = None\<rparr>"

text \<open>Strict mode on, and the default policy: strict mode off with a minimum rate of zero.\<close>

definition strict_config :: config where
  "strict_config = \<lparr>strict_mode = True, auto_submit = True, below_min_rate = (\<lambda>a t. False)\<rparr>"

definition default_config :: config where
  "default_config = \<lparr>strict_mode = False, auto_submit = True, below_min_rate = (\<lambda>a t. False)\<rparr>"

text \<open>A start command that passed its preamble: course 7, all chapters.\<close>

definition demo_start :: "string \<Rightarrow> string \<Rightarrow> real \<Rightarrow> start_request" where
  "demo_start user uuid now =
     \<lparr>sr_sender_id = user, sr_sender_name = ''Alice'', sr_umo = ''private'',
      sr_preamble = Inr (Some 7, ''Course'', ModeAll, []), sr_uuid = uuid, sr_now = now\<rparr>"

section \<open>Properties of the credential store\<close>

text \<open>
  Claim C9. Binding under an identity that already has a binding: with a different
  username the call fails and the whole store (the stored binding with all its fields,
  and the saved file) is left as it was; with the same username the call succeeds, the
  stored binding keeps its username and bound-at time and receives the new encrypted
  secret and the new updated-at time, and no other identity's binding changes.
\<close>

theorem bind_existing_binding:
  assumes "bindings S qq = Some existing"
  shows "(username existing \<noteq> Some uname \<longrightarrow>
            bind encrypt now1 now2 S qq uname pw = ((False, MsgBoundOtherAccount), S))
       \<and> (username existing = Some uname \<longrightarrow>
            fst (bind encrypt now1 now2 S qq uname pw) = (True, MsgPasswordUpdated)
          \<and> bindings (snd (bind encrypt now1 now2 S qq uname pw)) qq =
              Some (existing\<lparr>password := Some (encrypt pw), updated_at := Some now1\<rparr>)
          \<and> (\<forall>b'. bindings (snd (bind encrypt now1 now2 S qq uname pw)) qq = Some b'
                \<longrightarrow> username b' = username existing \<and> bound_at b' = bound_at existing)
          \<and> (\<forall>other. other \<noteq> qq \<longrightarrow>
                bindings (snd (bind encrypt now1 now2 S qq uname pw)) other = bindings S other))"
  using assms by (simp add: bind_def save_def)

theorem bind_existing_binding_witness:
  "bind (\<lambda>p. ''enc:'' @ p) ''t1'' ''t2''
      \<lparr>bindings = [''10001'' \<mapsto> \<lparr>username = Some ''alice'', password = Some ''enc:old'',
                                   bound_at = Some ''t0'', updated_at = Some ''t0''\<rparr>],
       saved = Map.empty\<rparr> ''10001'' ''bob'' ''pw''
   = ((False, MsgBoundOtherAccount),
      \<lparr>bindings = [''10001'' \<mapsto> \<lparr>username = Some ''alice'', password = Some ''enc:old'',
                                   bound_at = Some ''t0'', updated_at = Some ''t0''\<rparr>],
       saved = Map.empty\<rparr>)
   \<and> bindings (snd (bind (\<lambda>p. ''enc:'' @ p) ''t1'' ''t2''
      \<lparr>bindings = [''10001'' \<mapsto> \<lparr>username = Some ''alice'', password = Some ''enc:old'',
                                   bound_at = Some ''t0'', updated_at = Some ''t0''\<rparr>],
       saved = Map.empty\<rparr> ''10001'' ''alice'' ''pw'')) ''10001''
     = Some \<lparr>username = Some ''alice'', password = Some ''enc:pw'',
             bound_at = Some ''t0'', updated_at = Some ''t1''\<rparr>"
  using
    bind_existing_binding [of
      "\<lparr>bindings = [''10001'' \<mapsto> \<lparr>username = Some ''alice'', password = Some ''enc:old'',
                                   bound_at = Some ''t0'', updated_at = Some ''t0''\<rparr>],
        saved = Map.empty\<rparr>" "''10001''"
      "\<lparr>username = Some ''alice'', password = Some ''enc:old'',
        bound_at = Some ''t0'', updated_at = Some ''t0''\<rparr>"
      "''bob''" "\<lambda>p. ''enc:'' @ p" "''t1''" "''t2''" "''pw''"]
    bind_existing_binding [of
      "\<lparr>bindings = [''10001'' \<mapsto> \<lparr>username = Some ''alice'', password = Some ''enc:old'',
                                   bound_at = Some ''t0'', updated_at = Some ''t0''\<rparr>],
        saved = Map.empty\<rparr>" "''10001''"
      "\<lparr>username = Some ''alice'', password = Some ''enc:old'',
        bound_at = Some ''t0'', updated_at = Some ''t0''\<rparr>"
      "''alice''" "\<lambda>p. ''enc:'' @ p" "''t1''" "''t2''" "''pw''"]
  by simp

text \<open>
  Claim C10. When a user's stored binding carries a secret that does not decrypt under
  the current key (\<open>InvalidToken\<close>), \<open>get\<close> returns the absent value and raises nothing:
  the same answer it gives for that user once the binding is taken out of the store.
\<close>

theorem get_undecryptable_is_absent:
  assumes "bindings S qq = Some data"
    and "decrypt (get_or (password data) '''') = Inl InvalidToken"
  shows "get decrypt S qq = Inr None
       \<and> get decrypt S qq = get decrypt (S\<lparr>bindings := (bindings S)(qq := None)\<rparr>) qq"
  using assms by (simp add: get_def)

theorem get_undecryptable_is_absent_witness:
  "get (\<lambda>t. if t = ''good'' then Inr ''secret'' else Inl InvalidToken)
       \<lparr>bindings = [''10001'' \<mapsto> \<lparr>username = Some ''alice'', password = Some ''garbled'',
                                    bound_at = Some ''t0'', updated_at = Some ''t0''\<rparr>],
        saved = Map.empty\<rparr> ''10001'' = Inr None"
  using
    get_undecryptable_is_absent [of
      "\<lparr>bindings = [''10001'' \<mapsto> \<lparr>username = Some ''alice'', password = Some ''garbled'',
                                   bound_at = Some ''t0'', updated_at = Some ''t0''\<rparr>],
        saved = Map.empty\<rparr>" "''10001''"
      "\<lparr>username = Some ''alice'', password = Some ''garbled'',
        bound_at = Some ''t0'', updated_at = Some ''t0''\<rparr>"
      "\<lambda>t. if t = ''good'' then Inr ''secret'' else Inl InvalidToken"]
  by (simp add: get_or_def)

section \<open>Properties of the authentication negotiation\<close>


lemma calls_since_append: "trace b' = trace b @ ext \<Longrightarrow> calls_since b b' = ext"
  by (simp add: calls_since_def)










section \<open>Properties of answer resolution\<close>

lemma find_absent: "\<forall>x \<in> set xs. \<not> P x \<Longrightarrow> List.find P xs = None"
  by (simp add: find_None_iff)

lemma absent_no_local_answer:
  "\<not> is_answer_in_local_bank qbank qtext \<Longrightarrow> local_answer qbank qtext = None"
  unfolding is_answer_in_local_bank_def local_answer_def list_ex_iff
  by (subst find_absent) auto

lemma api_search_disabled:
  "oracle_disabled b \<Longrightarrow> api_search W req b = (None, b)"
  by (auto simp: oracle_disabled_def api_search_def)

lemma api_search_failure:
  assumes "\<not> oracle_disabled b" and "oracle_failure (w_oracle W (trace b) req)"
  shows "api_search W req b =
           (None, disable_after_errors (count_error (log_call (OracleRequest req) b)))"
  using assms
  by (cases "w_oracle W (trace b) req")
     (auto simp: oracle_disabled_def api_search_def Let_def split: oracle_body.splits)

lemma api_search_success:
  assumes "\<not> oracle_disabled b" and "oracle_success (w_oracle W (trace b) req)"
  shows "\<exists>a. w_oracle W (trace b) req = Response 200 (CorrectAnswer (Some a)) \<and> a \<noteq> []
          \<and> api_search W req b = (Some a, (log_call (OracleRequest req) b)\<lparr>api_error_count := 0\<rparr>)"
  using assms
  by (cases "w_oracle W (trace b) req" rule: oracle_success.cases)
     (auto simp: oracle_disabled_def api_search_def Let_def truthy_def split: option.splits)

lemma api_search_trace:
  "trace (snd (api_search W req b)) = trace b \<or>
   trace (snd (api_search W req b)) = trace b @ [OracleRequest req]"
  by (auto simp: api_search_def Let_def log_call_def count_error_def disable_after_errors_def
      split: oracle_reply.splits oracle_body.splits)

lemma failure_step:
  assumes "oracle_failure (w_oracle W (trace b) req)"
  shows "oracle_disabled (snd (api_search W req b)) \<or>
         (api_available (snd (api_search W req b)) \<and>
          api_error_count (snd (api_search W req b)) = api_error_count b + 1)"
proof (cases "oracle_disabled b")
  case True
  then show ?thesis by (simp add: api_search_disabled)
next
  case False
  then show ?thesis
    using assms
    by (auto simp: api_search_failure oracle_disabled_def disable_after_errors_def
        count_error_def log_call_def)
qed

lemma find_answer_absent:
  "\<not> is_answer_in_local_bank (question_bank b) qtext \<Longrightarrow>
   find_answer W qtext opts cname chname b =
     api_search W \<lparr>req_title = qtext, req_options = opts, req_course_name = cname,
                   req_chapter = chname\<rparr> b"
  by (simp add: find_answer_def absent_no_local_answer)

lemma api_search_bank: "question_bank (snd (api_search W req b)) = question_bank b"
  by (auto simp: api_search_def Let_def log_call_def count_error_def disable_after_errors_def
      split: oracle_reply.splits oracle_body.splits)

lemma find_answer_bank:
  "question_bank (snd (find_answer W qtext opts cname chname b)) = question_bank b"
  by (simp add: find_answer_def api_search_bank split: option.splits)

lemma find_answers_disabled:
  "oracle_disabled b \<Longrightarrow>
   \<forall>q \<in> set qs. \<not> is_answer_in_local_bank (question_bank b) (fst q) \<Longrightarrow>
   find_answers W cname chname qs b = (replicate (length qs) None, b)"
  by (induction qs) (auto simp: find_answer_absent api_search_disabled)

text \<open>
  Claim C6. Three lookups in a row, for questions absent from the local bank, whose
  requests the answer service fails, leave the service disabled. From then on every
  question absent from the bank resolves to nothing and the bot, with its log of calls,
  is unchanged, so no request is attempted for the rest of the run. A lookup that the
  service answers puts the error count back to zero.
\<close>

theorem oracle_cut_off:
  "(let r1 = \<lparr>req_title = q1, req_options = o1, req_course_name = cname, req_chapter = chname\<rparr>;
        r2 = \<lparr>req_title = q2, req_options = o2, req_course_name = cname, req_chapter = chname\<rparr>;
        r3 = \<lparr>req_title = q3, req_options = o3, req_course_name = cname, req_chapter = chname\<rparr>;
        b1 = snd (find_answer W q1 o1 cname chname b);
        b2 = snd (find_answer W q2 o2 cname chname b1);
        b3 = snd (find_answer W q3 o3 cname chname b2)
    in \<not> is_answer_in_local_bank (question_bank b) q1
       \<and> \<not> is_answer_in_local_bank (question_bank b) q2
       \<and> \<not> is_answer_in_local_bank (question_bank b) q3
       \<and> oracle_failure (w_oracle W (trace b) r1)
       \<and> oracle_failure (w_oracle W (trace b1) r2)
       \<and> oracle_failure (w_oracle W (trace b2) r3)
       \<longrightarrow> oracle_disabled b3)
   \<and> (oracle_disabled b \<and> (\<forall>q \<in> set qs. \<not> is_answer_in_local_bank (question_bank b) (fst q))
        \<longrightarrow> find_answers W cname chname qs b = (replicate (length qs) None, b))
   \<and> (\<not> is_answer_in_local_bank (question_bank b) q \<and> \<not> oracle_disabled b
        \<and> oracle_success (w_oracle W (trace b)
              \<lparr>req_title = q, req_options = opts, req_course_name = cname, req_chapter = chname\<rparr>)
        \<longrightarrow> fst (find_answer W q opts cname chname b) \<noteq> None
          \<and> api_error_count (snd (find_answer W q opts cname chname b)) = 0)"
proof -
  let ?r1 = "\<lparr>req_title = q1, req_options = o1, req_course_name = cname, req_chapter = chname\<rparr>"
  let ?r2 = "\<lparr>req_title = q2, req_options = o2, req_course_name = cname, req_chapter = chname\<rparr>"
  let ?r3 = "\<lparr>req_title = q3, req_options = o3, req_course_name = cname, req_chapter = chname\<rparr>"
  let ?b1 = "snd (find_answer W q1 o1 cname chname b)"
  let ?b2 = "snd (find_answer W q2 o2 cname chname ?b1)"
  let ?b3 = "snd (find_answer W q3 o3 cname chname ?b2)"
  have A: "oracle_disabled ?b3"
    if abs: "\<not> is_answer_in_local_bank (question_bank b) q1"
      "\<not> is_answer_in_local_bank (question_bank b) q2"
      "\<not> is_answer_in_local_bank (question_bank b) q3"
      and f1: "oracle_failure (w_oracle W (trace b) ?r1)"
      and f2: "oracle_failure (w_oracle W (trace ?b1) ?r2)"
      and f3: "oracle_failure (w_oracle W (trace ?b2) ?r3)"
  proof -
    have e1: "?b1 = snd (api_search W ?r1 b)"
      using abs(1) by (simp add: find_answer_absent)
    have e2: "?b2 = snd (api_search W ?r2 ?b1)"
      using abs(2) by (simp add: find_answer_absent find_answer_bank)
    have e3: "?b3 = snd (api_search W ?r3 ?b2)"
      using abs(3) by (simp add: find_answer_absent find_answer_bank)
    have s1: "oracle_disabled ?b1 \<or> api_error_count ?b1 = api_error_count b + 1"
      using failure_step [OF f1] e1 by auto
    have s2: "oracle_disabled ?b2 \<or> api_error_count ?b2 = api_error_count ?b1 + 1"
      using failure_step [OF f2] e2 by auto
    have s3: "oracle_disabled ?b3 \<or> api_error_count ?b3 = api_error_count ?b2 + 1"
      using failure_step [OF f3] e3 by auto
    have k2: "oracle_disabled ?b1 \<Longrightarrow> ?b2 = ?b1"
      using e2 by (simp add: api_search_disabled)
    have k3: "oracle_disabled ?b2 \<Longrightarrow> ?b3 = ?b2"
      using e3 by (simp add: api_search_disabled)
    show ?thesis
    proof (cases "oracle_disabled ?b2")
      case True
      then show ?thesis using k3 by simp
    next
      case n2: False
      then have n1: "\<not> oracle_disabled ?b1" using k2 by auto
      have "oracle_disabled ?b3 \<or> api_error_count ?b3 = api_error_count b + 3"
        using s1 s2 s3 n1 n2 by auto
      then show ?thesis by (auto simp: oracle_disabled_def)
    qed
  qed
  have C: "fst (find_answer W q opts cname chname b) \<noteq> None
          \<and> api_error_count (snd (find_answer W q opts cname chname b)) = 0"
    if "\<not> is_answer_in_local_bank (question_bank b) q" "\<not> oracle_disabled b"
      "oracle_success (w_oracle W (trace b)
              \<lparr>req_title = q, req_options = opts, req_course_name = cname, req_chapter = chname\<rparr>)"
    using api_search_success [OF that(2) that(3)] that(1)
    by (auto simp: find_answer_absent log_call_def)
  show ?thesis
    unfolding Let_def using A C find_answers_disabled [of b qs W cname chname] by blast
qed


theorem oracle_cut_off_witness:
  "oracle_disabled
     (snd (find_answers silent_world ''course'' ''ch''
             [(''q1'', []), (''q2'', []), (''q3'', [])] (create_bot ''u'' ''pw'')))
   \<and> fst (find_answers silent_world ''course'' ''ch''
             [(''q1'', []), (''q2'', []), (''q3'', []), (''q4'', [])] (create_bot ''u'' ''pw''))
       = [None, None, None, None]
   \<and> map req_title (oracle_requests (trace (snd (find_answers silent_world ''course'' ''ch''
             [(''q1'', []), (''q2'', []), (''q3'', []), (''q4'', [])] (create_bot ''u'' ''pw'')))))
       = [''q1'', ''q2'', ''q3'']
   \<and> api_error_count
        (snd (find_answer (silent_world\<lparr>w_oracle := \<lambda>h r. Response 200 (CorrectAnswer (Some ''A''))\<rparr>)
                ''q'' [] ''course'' ''ch'' ((create_bot ''u'' ''pw'')\<lparr>api_error_count := 2\<rparr>))) = 0"
  using
    oracle_cut_off [where W = silent_world and b = "create_bot ''u'' ''pw''"
      and ?q1.0 = "''q1''" and ?q2.0 = "''q2''" and ?q3.0 = "''q3''"
      and ?o1.0 = "[]" and ?o2.0 = "[]" and ?o3.0 = "[]"
      and cname = "''course''" and chname = "''ch''" and qs = "[]"
      and q = "''q''" and opts = "[]"]
    oracle_cut_off [where
      W = "silent_world\<lparr>w_oracle := \<lambda>h r. Response 200 (CorrectAnswer (Some ''A''))\<rparr>"
      and b = "(create_bot ''u'' ''pw'')\<lparr>api_error_count := 2\<rparr>"
      and ?q1.0 = "''q1''" and ?q2.0 = "''q2''" and ?q3.0 = "''q3''"
      and ?o1.0 = "[]" and ?o2.0 = "[]" and ?o3.0 = "[]"
      and cname = "''course''" and chname = "''ch''" and qs = "[]"
      and q = "''q''" and opts = "[]"]
    oracle_cut_off [where W = silent_world
      and b = "snd (find_answers silent_world ''course'' ''ch''
             [(''q1'', []), (''q2'', []), (''q3'', [])] (create_bot ''u'' ''pw''))"
      and ?q1.0 = "''q1''" and ?q2.0 = "''q2''" and ?q3.0 = "''q3''"
      and ?o1.0 = "[]" and ?o2.0 = "[]" and ?o3.0 = "[]"
      and cname = "''course''" and chname = "''ch''" and qs = "[(''q4'', [])]"
      and q = "''q''" and opts = "[]"]
  by (simp add: silent_world_def create_bot_def find_answer_def local_answer_def
      is_answer_in_local_bank_def api_search_def log_call_def count_error_def
      disable_after_errors_def oracle_disabled_def truthy_def)

text \<open>
  Claim C7, as the code has it. A lookup by the pipeline's answer resolution sends at
  most one request to the answer service and never repeats it. When that one request
  fails (time-out, connection failure, a body that is not JSON, or any other error),
  the question is unresolved at once and one error is counted.
\<close>

theorem find_answer_single_request:
  "length (oracle_requests (calls_since b (snd (find_answer W q opts cname chname b)))) \<le> 1
   \<and> (\<not> is_answer_in_local_bank (question_bank b) q \<and> \<not> oracle_disabled b
        \<and> oracle_failure (w_oracle W (trace b)
              \<lparr>req_title = q, req_options = opts, req_course_name = cname, req_chapter = chname\<rparr>)
        \<longrightarrow> fst (find_answer W q opts cname chname b) = None
          \<and> calls_since b (snd (find_answer W q opts cname chname b)) =
                [OracleRequest \<lparr>req_title = q, req_options = opts, req_course_name = cname,
                                 req_chapter = chname\<rparr>]
          \<and> api_error_count (snd (find_answer W q opts cname chname b)) = api_error_count b + 1)"
proof -
  let ?req = "\<lparr>req_title = q, req_options = opts, req_course_name = cname, req_chapter = chname\<rparr>"
  have "calls_since b (snd (find_answer W q opts cname chname b)) = []
      \<or> calls_since b (snd (find_answer W q opts cname chname b)) = [OracleRequest ?req]"
    using api_search_trace [of W ?req b]
    by (auto simp: find_answer_def calls_since_def split: option.splits)
  then have one: "length (oracle_requests (calls_since b (snd (find_answer W q opts cname chname b)))) \<le> 1"
    by auto
  have fail: "fst (find_answer W q opts cname chname b) = None
          \<and> calls_since b (snd (find_answer W q opts cname chname b)) = [OracleRequest ?req]
          \<and> api_error_count (snd (find_answer W q opts cname chname b)) = api_error_count b + 1"
    if "\<not> is_answer_in_local_bank (question_bank b) q" "\<not> oracle_disabled b"
      "oracle_failure (w_oracle W (trace b) ?req)"
    using that
    by (simp add: find_answer_absent api_search_failure calls_since_def log_call_def
        count_error_def disable_after_errors_def)
  show ?thesis using one fail by blast
qed

theorem find_answer_single_request_witness:
  "fst (find_answer silent_world ''q'' [] ''course'' ''ch'' (create_bot ''u'' ''pw'')) = None
   \<and> api_error_count
        (snd (find_answer silent_world ''q'' [] ''course'' ''ch'' (create_bot ''u'' ''pw''))) = 1"
  using find_answer_single_request [of "create_bot ''u'' ''pw''" silent_world "''q''" "[]"
      "''course''" "''ch''"]
  by (simp add: silent_world_def create_bot_def is_answer_in_local_bank_def oracle_disabled_def)

text \<open>
  The claim as written has the lookup retried before the question is given up. With the
  answer service timing out, the lookup of one question returns nothing after a single
  request.
\<close>

theorem find_answer_no_retry:
  "w_oracle silent_world [] \<lparr>req_title = ''q'', req_options = [], req_course_name = ''course'',
                              req_chapter = ''ch''\<rparr> = Timeout
   \<and> fst (find_answer silent_world ''q'' [] ''course'' ''ch'' (create_bot ''u'' ''pw'')) = None
   \<and> trace (snd (find_answer silent_world ''q'' [] ''course'' ''ch'' (create_bot ''u'' ''pw'')))
       = [OracleRequest \<lparr>req_title = ''q'', req_options = [], req_course_name = ''course'',
                          req_chapter = ''ch''\<rparr>]"
  by (simp add: silent_world_def create_bot_def find_answer_def local_answer_def
      api_search_def log_call_def count_error_def disable_after_errors_def)

section \<open>Properties of the pipeline\<close>

lemma quiet_step_refl: "quiet_step b b"
  by (simp add: quiet_step_def)

lemma quiet_step_trans: "quiet_step a b \<Longrightarrow> quiet_step b c \<Longrightarrow> quiet_step a c"
  unfolding quiet_step_def by (metis UnE append.assoc set_append)

lemma quiet_step_log: "\<not> is_chapter_work c \<Longrightarrow> quiet_step b (log_call c b)"
  by (simp add: quiet_step_def log_call_def)

lemma try_candidates_quiet: "quiet_step b (snd (try_candidates W key n i cs b))"
proof (induction cs arbitrary: i b)
  case Nil
  show ?case by (simp add: quiet_step_refl)
next
  case (Cons c cs)
  let ?ok = "w_login W (trace b) (login_username b) c key"
  let ?b1 = "log_call (PostLogin (login_username b) c key ?ok) b"
  have q1: "quiet_step b ?b1" by (simp add: quiet_step_log)
  show ?case
  proof (cases ?ok)
    case True
    then show ?thesis using q1 by (simp add: test_login_with_password_format_def)
  next
    case False
    let ?b2 = "if int i < int n - 1 then human_like_delay ?b1 else ?b1"
    have "quiet_step ?b1 ?b2"
      by (simp add: quiet_step_refl human_like_delay_def quiet_step_log)
    then have "quiet_step b ?b2" using q1 quiet_step_trans by blast
    then have "quiet_step b (snd (try_candidates W key n (Suc i) cs ?b2))"
      using Cons.IH [of ?b2 "Suc i"] quiet_step_trans by blast
    moreover have "try_candidates W key n i (c # cs) b = try_candidates W key n (Suc i) cs ?b2"
      using False by (simp add: test_login_with_password_format_def)
    ultimately show ?thesis by simp
  qed
qed

lemma analyze_network_request_quiet: "quiet_step b (snd (analyze_network_request W encodable b))"
proof -
  have "quiet_step b (log_call GetLoginPage b)" by (simp add: quiet_step_log)
  then show ?thesis
    using try_candidates_quiet quiet_step_trans
    by (auto simp: analyze_network_request_def get_csrf_token_and_key_def Let_def)
qed

lemma analyze_from_fresh:
  assumes "analyze_network_request W encodable (log_call CheckLogin (create_bot u p)) = (ok, b2)"
  shows "\<forall>c \<in> set (trace b2). \<not> is_chapter_work c"
proof -
  have "quiet_step (log_call CheckLogin (create_bot u p)) b2"
    using analyze_network_request_quiet [of "log_call CheckLogin (create_bot u p)" W encodable] assms
    by simp
  then show ?thesis
    by (auto simp: quiet_step_def log_call_def create_bot_def)
qed

lemma parse_range_bad:
  assumes "split_on CHR ''-'' text = [p0, p1]" "py_int p0 = Some start" "py_int p1 = Some end"
    and "start > end \<or> start \<le> 0 \<or> end \<le> 0"
  shows "parse_range text = Inl RangeValueError"
  using assms by (auto simp: parse_range_def)

text \<open>
  Claim C3, as the code has it. A range task whose bounds parse to integers with the
  start above the end, or with a bound that is not positive, never processes a
  chapter: the run makes no completion fetch, no question fetch, no request to the
  answer service and no submission, and it ends in an exception or in a failure
  without a summary. The range itself is only examined after discovery: a run that
  ends with the range error has fetched the course list and the chapter list, and with
  a bound user, a live session, the course on the platform and a chapter list that is
  not empty the run is exactly session check, course list, chapter list, range error.
\<close>

theorem range_rejected_after_discovery:
  assumes m: "mode task = ModeRange"
    and sp: "split_on CHR ''-'' (spec task) = [p0, p1]"
    and i0: "py_int p0 = Some start" and i1: "py_int p1 = Some end"
    and bad: "start > end \<or> start \<le> 0 \<or> end \<le> 0"
  shows "(\<forall>c \<in> set (snd (snd (execute_task_sync W encodable cfg decrypt S task))).
            \<not> is_chapter_work c)
       \<and> (\<forall>r. fst (execute_task_sync W encodable cfg decrypt S task) = Inr r \<longrightarrow>
              \<not> res_success r \<and> res_summary r = None)
       \<and> (fst (execute_task_sync W encodable cfg decrypt S task) = Inl RangeValueError \<longrightarrow>
              GetCourses \<in> set (snd (snd (execute_task_sync W encodable cfg decrypt S task)))
            \<and> (\<exists>c. GetChapters c \<in> set (snd (snd (execute_task_sync W encodable cfg decrypt S task)))))
       \<and> (\<forall>binding c.
              get decrypt S (qq_id task) = Inr (Some binding) \<and> w_check_login W []
            \<and> List.find (\<lambda>c. Some (c_id c) = course_id task)
                  (dedup_on c_id [] (w_courses W [CheckLogin])) = Some c
            \<and> w_chapters W [CheckLogin, GetCourses] (c_id c) \<noteq> [] \<longrightarrow>
              execute_task_sync W encodable cfg decrypt S task =
                (Inl RangeValueError, Some (c_name c), [CheckLogin, GetCourses, GetChapters (c_id c)]))"
proof -
  have pr: "parse_range (spec task) = Inl RangeValueError"
    using parse_range_bad [OF sp i0 i1 bad] .
  have sel: "\<And>chapters b. select_chapters W encodable (mode task) (spec task) chapters b
               = (Raise RangeValueError, b)"
    by (simp add: select_chapters_def m pr)
  have dd: "\<And>xs :: chapter_info list. xs \<noteq> [] \<Longrightarrow> dedup_on exam_id [] xs \<noteq> []"
    by (case_tac xs) simp_all
  show ?thesis
    by (auto simp: execute_task_sync_def sel check_login_status_def get_all_courses_def
        get_chapters_def failure_def log_call_def create_bot_def dd
        split: sum.splits option.splits prod.splits bool.splits if_splits
        dest!: analyze_from_fresh [unfolded log_call_def create_bot_def, simplified])
qed

theorem range_rejected_after_discovery_witness:
  "split_on CHR ''-'' (spec (demo_task ModeRange ''5-2'')) = [''5'', ''2'']
   \<and> py_int ''5'' = Some 5 \<and> py_int ''2'' = Some 2
   \<and> fst (execute_task_sync demo_world (\<lambda>s. True) default_config demo_decrypt demo_store
            (demo_task ModeRange ''5-2'')) = Inl RangeValueError
   \<and> \<not> list_ex is_chapter_work (snd (snd (execute_task_sync demo_world (\<lambda>s. True)
                  default_config demo_decrypt demo_store (demo_task ModeRange ''5-2''))))
   \<and> GetCourses \<in> set (snd (snd (execute_task_sync demo_world (\<lambda>s. True) default_config
                  demo_decrypt demo_store (demo_task ModeRange ''5-2''))))"
proof -
  have m: "mode (demo_task ModeRange ''5-2'') = ModeRange"
    by (simp add: demo_task_def)
  have sp: "split_on CHR ''-'' (spec (demo_task ModeRange ''5-2'')) = [''5'', ''2'']"
    by (simp add: demo_task_def)
  have i0: "py_int ''5'' = Some 5" by code_simp
  have i1: "py_int ''2'' = Some 2" by code_simp
  have bad: "(5::int) > 2 \<or> (5::int) \<le> 0 \<or> (2::int) \<le> 0" by simp
  have ex: "fst (execute_task_sync demo_world (\<lambda>s. True) default_config demo_decrypt demo_store
            (demo_task ModeRange ''5-2'')) = Inl RangeValueError"
    by code_simp
  show ?thesis
    using range_rejected_after_discovery [OF m sp i0 i1 bad, of demo_world "\<lambda>s. True"
        default_config demo_decrypt demo_store] sp i0 i1 ex
    by (simp add: list_ex_iff)
qed

text \<open>
  The claim as written has the range rejected before any discovery call. The run for
  the range 5-2 fetches the course list and the chapter list of course 7 before it
  raises the range error.
\<close>

theorem range_checked_after_discovery_calls:
  "execute_task_sync demo_world (\<lambda>s. True) default_config demo_decrypt demo_store
     (demo_task ModeRange ''5-2'')
   = (Inl RangeValueError, Some ''Course'', [CheckLogin, GetCourses, GetChapters 7])"
  by code_simp

lemma no_post_step_refl: "no_post_step b b"
  by (simp add: no_post_step_def)

lemma no_post_step_trans: "no_post_step a b \<Longrightarrow> no_post_step b c \<Longrightarrow> no_post_step a c"
  unfolding no_post_step_def by (metis UnE append.assoc set_append)

lemma find_answer_no_post: "no_post_step b (snd (find_answer W qtext opts cname chname b))"
proof -
  let ?req = "\<lparr>req_title = qtext, req_options = opts, req_course_name = cname, req_chapter = chname\<rparr>"
  have "no_post_step b (snd (api_search W ?req b))"
    using api_search_trace [of W ?req b] by (auto simp: no_post_step_def)
  then show ?thesis
    by (simp add: find_answer_def no_post_step_refl split: option.splits)
qed

lemma dict_set_nonempty: "dict_set k v kvs \<noteq> []"
  by (cases kvs) (auto split: if_splits)

lemma record_answer_data:
  "(answered st > 0 \<longrightarrow> answer_data st \<noteq> []) \<Longrightarrow>
   answered (record_answer qbank q qtext answer st) > 0 \<Longrightarrow>
   answer_data (record_answer qbank q qtext answer st) \<noteq> []"
  by (auto simp: record_answer_def note_missing_def note_answer_def Let_def dict_set_nonempty
      split: option.splits if_splits)

lemma answer_questions_no_post:
  "no_post_step b (snd (answer_questions W cname chname qs st b))"
proof (induction qs arbitrary: st b)
  case Nil
  show ?case by (simp add: no_post_step_refl)
next
  case (Cons q qs)
  show ?case
  proof (cases "title q")
    case None
    then show ?thesis using Cons.IH [of b st] by simp
  next
    case (Some qtext)
    obtain answer b1 where fa: "find_answer W qtext (options q) cname chname b = (answer, b1)"
      by (cases "find_answer W qtext (options q) cname chname b") auto
    have s1: "no_post_step b b1"
      using find_answer_no_post [of b W qtext "options q" cname chname] fa by simp
    have e: "answer_questions W cname chname (q # qs) st b
           = answer_questions W cname chname qs (record_answer (question_bank b1) q qtext answer st) b1"
      using Some fa by simp
    show ?thesis
      unfolding e
      by (rule no_post_step_trans [OF s1 Cons.IH])
  qed
qed

lemma answer_questions_data:
  "(answered st > 0 \<longrightarrow> answer_data st \<noteq> []) \<Longrightarrow>
   answered (fst (answer_questions W cname chname qs st b)) > 0 \<Longrightarrow>
   answer_data (fst (answer_questions W cname chname qs st b)) \<noteq> []"
proof (induction qs arbitrary: st b)
  case Nil
  then show ?case by simp
next
  case (Cons q qs)
  show ?case
  proof (cases "title q")
    case None
    then show ?thesis using Cons.IH [of st b] Cons.prems by simp
  next
    case (Some qtext)
    obtain answer b1 where fa: "find_answer W qtext (options q) cname chname b = (answer, b1)"
      by (cases "find_answer W qtext (options q) cname chname b") auto
    let ?st1 = "record_answer (question_bank b1) q qtext answer st"
    have e: "answer_questions W cname chname (q # qs) st b
           = answer_questions W cname chname qs ?st1 b1"
      using Some fa by simp
    have inv: "answered ?st1 > 0 \<longrightarrow> answer_data ?st1 \<noteq> []"
      using record_answer_data [OF Cons.prems(1)] by simp
    have pos: "answered (fst (answer_questions W cname chname qs ?st1 b1)) > 0"
      using Cons.prems(2) unfolding e .
    show ?thesis
      unfolding e using Cons.IH [OF inv pos] .
  qed
qed

lemma report_after_loop:
  assumes "r_total (fst (auto_answer_with_report W eid cname chname submit strict below b)) > 0"
  obtains action qs st b1 where
    "w_exam W (trace b) eid = ExamPage 200 (Some action) qs" "qs \<noteq> []"
    "answer_questions W cname chname qs initial_loop (log_call (GetExam eid) b) = (st, b1)"
    "total st > 0"
proof (cases "w_exam W (trace b) eid")
  case ExamRaised
  then show ?thesis
    using assms by (simp add: auto_answer_with_report_def initial_report_def)
next
  case (ExamPage code form qs)
  have c: "code = 200"
    using assms ExamPage
    by (cases "code = 200") (simp_all add: auto_answer_with_report_def initial_report_def)
  obtain action where f: "form = Some action"
    using assms ExamPage c
    by (cases form) (simp_all add: auto_answer_with_report_def initial_report_def)
  have q: "qs \<noteq> []"
    using assms ExamPage c f
    by (cases "qs = []") (simp_all add: auto_answer_with_report_def initial_report_def)
  obtain st b1 where
    l: "answer_questions W cname chname qs initial_loop (log_call (GetExam eid) b) = (st, b1)"
    by (cases "answer_questions W cname chname qs initial_loop (log_call (GetExam eid) b)") auto
  have t: "total st > 0"
    using assms ExamPage c f q l
    by (cases "total st = 0")
       (simp_all add: auto_answer_with_report_def initial_report_def Let_def)
  show ?thesis
    using that [OF _ q l t] ExamPage c f by simp
qed

lemma strict_report:
  assumes "strict"
    and "r_total (fst (auto_answer_with_report W eid cname chname submit strict below b)) > 0"
    and "r_missing (fst (auto_answer_with_report W eid cname chname submit strict below b)) > 0"
  shows "r_status (fst (auto_answer_with_report W eid cname chname submit strict below b))
           = InsufficientAnswers"
    and "r_message (fst (auto_answer_with_report W eid cname chname submit strict below b))
           = MissingAnswers"
    and "\<not> r_success (fst (auto_answer_with_report W eid cname chname submit strict below b))"
    and "\<not> list_ex is_post_answers
            (calls_since b (snd (auto_answer_with_report W eid cname chname submit strict below b)))"
proof -
  obtain action qs st b1 where
    p: "w_exam W (trace b) eid = ExamPage 200 (Some action) qs" "qs \<noteq> []"
    and l: "answer_questions W cname chname qs initial_loop (log_call (GetExam eid) b) = (st, b1)"
    and t: "total st > 0"
    using report_after_loop [OF assms(2)] by blast
  have m: "failed_count st > 0"
    using assms(3) p l t
    by (auto simp: auto_answer_with_report_def initial_report_def Let_def
        split: if_splits post_reply.splits)
  have r: "auto_answer_with_report W eid cname chname submit strict below b =
             (initial_report\<lparr>r_total := total st, r_answered := answered st,
                 r_local := local_count st, r_api := api_count st, r_missing := failed_count st,
                 r_missing_samples := missing_samples st,
                 r_status := InsufficientAnswers, r_message := MissingAnswers\<rparr>, b1)"
    using p l t m assms(1) by (simp add: auto_answer_with_report_def Let_def)
  have "no_post_step (log_call (GetExam eid) b) b1"
    using answer_questions_no_post [of "log_call (GetExam eid) b" W cname chname qs initial_loop] l
    by simp
  then obtain ext where "trace b1 = trace b @ (GetExam eid # ext)"
    and np: "\<forall>c \<in> set ext. \<not> is_post_answers c"
    by (auto simp: no_post_step_def log_call_def)
  then have cs: "calls_since b b1 = GetExam eid # ext"
    by (simp add: calls_since_append)
  show "r_status (fst (auto_answer_with_report W eid cname chname submit strict below b))
           = InsufficientAnswers"
    by (simp add: r)
  show "r_message (fst (auto_answer_with_report W eid cname chname submit strict below b))
           = MissingAnswers"
    by (simp add: r)
  show "\<not> r_success (fst (auto_answer_with_report W eid cname chname submit strict below b))"
    by (simp add: r initial_report_def)
  show "\<not> list_ex is_post_answers
            (calls_since b (snd (auto_answer_with_report W eid cname chname submit strict below b)))"
    using np by (simp add: r cs list_ex_iff)
qed

lemma lenient_report_submits:
  assumes "\<not> strict" and "submit"
    and "r_total (fst (auto_answer_with_report W eid cname chname submit strict below b)) > 0"
    and "r_answered (fst (auto_answer_with_report W eid cname chname submit strict below b)) > 0"
    and "\<not> below (r_answered (fst (auto_answer_with_report W eid cname chname submit strict below b)))
                  (r_total (fst (auto_answer_with_report W eid cname chname submit strict below b)))"
  shows "calls_since b (snd (auto_answer_with_report W eid cname chname submit strict below b)) \<noteq> []
       \<and> is_post_answers
           (last (calls_since b (snd (auto_answer_with_report W eid cname chname submit strict below b))))"
proof -
  obtain action qs st b1 where
    p: "w_exam W (trace b) eid = ExamPage 200 (Some action) qs" "qs \<noteq> []"
    and l: "answer_questions W cname chname qs initial_loop (log_call (GetExam eid) b) = (st, b1)"
    and t: "total st > 0"
    using report_after_loop [OF assms(3)] by blast
  have vals: "r_answered (fst (auto_answer_with_report W eid cname chname submit strict below b))
                = answered st"
    "r_total (fst (auto_answer_with_report W eid cname chname submit strict below b)) = total st"
    using p l t
    by (auto simp: auto_answer_with_report_def initial_report_def Let_def split: post_reply.splits)
  have a: "answered st > 0" using assms(4) vals by simp
  have nb: "\<not> below (answered st) (total st)" using assms(5) vals by simp
  have i0: "answered initial_loop > 0 \<longrightarrow> answer_data initial_loop \<noteq> []"
    by (simp add: initial_loop_def)
  have d: "answer_data st \<noteq> []"
    using answer_questions_data [OF i0, of W cname chname qs "log_call (GetExam eid) b"] l a
    by simp
  have "\<exists>ext. trace (snd (auto_answer_with_report W eid cname chname submit strict below b))
          = trace b1 @ [PostAnswers action (answer_data st)]"
    using p l t a nb d assms(1,2)
    by (auto simp: auto_answer_with_report_def Let_def log_call_def split: post_reply.splits)
  moreover have "\<exists>ext. trace b1 = trace b @ ext"
    using answer_questions_no_post [of "log_call (GetExam eid) b" W cname chname qs initial_loop] l
    by (auto simp: no_post_step_def log_call_def)
  ultimately obtain ext where
    "trace (snd (auto_answer_with_report W eid cname chname submit strict below b))
       = trace b @ (ext @ [PostAnswers action (answer_data st)])"
    by auto
  then have "calls_since b (snd (auto_answer_with_report W eid cname chname submit strict below b))
       = ext @ [PostAnswers action (answer_data st)]"
    by (rule calls_since_append)
  then show ?thesis by simp
qed

lemma strict_stops_job:
  assumes "strict_mode cfg" and "\<not> w_cancel W (trace b)"
    and "r_total (fst (auto_answer_with_report W (exam_id ch) cname (ch_name ch)
            (auto_submit cfg) (strict_mode cfg) (below_min_rate cfg) b)) > 0"
    and "r_missing (fst (auto_answer_with_report W (exam_id ch) cname (ch_name ch)
            (auto_submit cfg) (strict_mode cfg) (below_min_rate cfg) b)) > 0"
  shows "snd (run_chapters W cfg cname (ch # rest) acc b) =
           snd (auto_answer_with_report W (exam_id ch) cname (ch_name ch)
                  (auto_submit cfg) (strict_mode cfg) (below_min_rate cfg) b)"
    and "stopped_reason (fst (run_chapters W cfg cname (ch # rest) acc b))
           = Some (ReportReason MissingAnswers)"
    and "fail_count (fst (run_chapters W cfg cname (ch # rest) acc b)) = fail_count acc + 1"
    and "success_count (fst (run_chapters W cfg cname (ch # rest) acc b)) = success_count acc"
proof -
  let ?R = "auto_answer_with_report W (exam_id ch) cname (ch_name ch)
              (auto_submit cfg) (strict_mode cfg) (below_min_rate cfg) b"
  note sr = strict_report [OF assms(1) assms(3) assms(4)]
  have e: "run_chapters W cfg cname (ch # rest) acc b =
             ((note_failure ch (fst ?R) (acc\<lparr>skipped_count := skipped_count acc + r_missing (fst ?R)\<rparr>))
                \<lparr>stopped_reason := Some (ReportReason (r_message (fst ?R)))\<rparr>, snd ?R)"
  proof -
    obtain rep b1 where R: "?R = (rep, b1)" by (cases ?R) auto
    have "r_status rep = InsufficientAnswers" "\<not> r_success rep"
      using sr(1,3) R by simp_all
    then show ?thesis
      using assms(1,2) R by (simp add: Let_def)
  qed
  show "snd (run_chapters W cfg cname (ch # rest) acc b) = snd ?R"
    unfolding e by simp
  show "stopped_reason (fst (run_chapters W cfg cname (ch # rest) acc b))
           = Some (ReportReason MissingAnswers)"
    unfolding e using sr(2) by simp
  show "fail_count (fst (run_chapters W cfg cname (ch # rest) acc b)) = fail_count acc + 1"
    unfolding e by (simp add: note_failure_def)
  show "success_count (fst (run_chapters W cfg cname (ch # rest) acc b)) = success_count acc"
    unfolding e by (simp add: note_failure_def)
qed

text \<open>
  Claim C2, as the code has it. For a chapter whose report counts at least one question:
  in strict mode, when at least one question found no answer, the report has status
  insufficient answers, no submission call is made for the chapter, and (the task not
  being canceled) the chapter loop ends with the bot as that chapter left it, so no
  later chapter is processed. With strict mode off, a coverage not below the minimum
  rate, submission enabled and at least one answer stored, the chapter's answers are
  submitted: the last call of the chapter is the POST of the answers.
\<close>

theorem strict_mode_policy:
  "(let rep = fst (auto_answer_with_report W (exam_id ch) cname (ch_name ch)
                     (auto_submit cfg) (strict_mode cfg) (below_min_rate cfg) b);
        b1 = snd (auto_answer_with_report W (exam_id ch) cname (ch_name ch)
                     (auto_submit cfg) (strict_mode cfg) (below_min_rate cfg) b)
    in (strict_mode cfg \<and> r_total rep > 0 \<and> r_missing rep > 0 \<longrightarrow>
          r_status rep = InsufficientAnswers \<and> \<not> r_success rep
        \<and> \<not> list_ex is_post_answers (calls_since b b1)
        \<and> (\<not> w_cancel W (trace b) \<longrightarrow>
              snd (run_chapters W cfg cname (ch # rest) acc b) = b1
            \<and> stopped_reason (fst (run_chapters W cfg cname (ch # rest) acc b))
                = Some (ReportReason MissingAnswers)
            \<and> fail_count (fst (run_chapters W cfg cname (ch # rest) acc b)) = fail_count acc + 1
            \<and> success_count (fst (run_chapters W cfg cname (ch # rest) acc b))
                = success_count acc))
     \<and> (\<not> strict_mode cfg \<and> auto_submit cfg \<and> r_total rep > 0 \<and> r_answered rep > 0
          \<and> \<not> below_min_rate cfg (r_answered rep) (r_total rep) \<longrightarrow>
          calls_since b b1 \<noteq> [] \<and> is_post_answers (last (calls_since b b1))))"
proof -
  let ?R = "auto_answer_with_report W (exam_id ch) cname (ch_name ch)
              (auto_submit cfg) (strict_mode cfg) (below_min_rate cfg) b"
  have A: "r_status (fst ?R) = InsufficientAnswers \<and> \<not> r_success (fst ?R)
        \<and> \<not> list_ex is_post_answers (calls_since b (snd ?R))"
    if "strict_mode cfg" "r_total (fst ?R) > 0" "r_missing (fst ?R) > 0"
    using strict_report(1,3,4) [OF that] by simp
  have B: "snd (run_chapters W cfg cname (ch # rest) acc b) = snd ?R
            \<and> stopped_reason (fst (run_chapters W cfg cname (ch # rest) acc b))
                = Some (ReportReason MissingAnswers)
            \<and> fail_count (fst (run_chapters W cfg cname (ch # rest) acc b)) = fail_count acc + 1
            \<and> success_count (fst (run_chapters W cfg cname (ch # rest) acc b))
                = success_count acc"
    if "strict_mode cfg" "r_total (fst ?R) > 0" "r_missing (fst ?R) > 0" "\<not> w_cancel W (trace b)"
    using strict_stops_job [OF that(1) that(4) that(2) that(3)] by simp
  have C: "calls_since b (snd ?R) \<noteq> [] \<and> is_post_answers (last (calls_since b (snd ?R)))"
    if "\<not> strict_mode cfg" "auto_submit cfg" "r_total (fst ?R) > 0" "r_answered (fst ?R) > 0"
      "\<not> below_min_rate cfg (r_answered (fst ?R)) (r_total (fst ?R))"
    using lenient_report_submits [OF that] .
  show ?thesis
    unfolding Let_def
    apply (intro conjI impI; elim conjE)
    subgoal using A by simp
    subgoal using A by simp
    subgoal using A by simp
    subgoal using B by simp
    subgoal using B by simp
    subgoal using B by simp
    subgoal using B by simp
    subgoal using C by simp
    subgoal using C by simp
    done
qed

theorem strict_mode_policy_witness:
  "r_total (fst (auto_answer_with_report demo_world 101 ''Course'' ''ch1'' True True
        (\<lambda>a t. False) ((create_bot ''alice'' ''secret'')\<lparr>question_bank := demo_bank\<rparr>))) = 5
   \<and> r_missing (fst (auto_answer_with_report demo_world 101 ''Course'' ''ch1'' True True
        (\<lambda>a t. False) ((create_bot ''alice'' ''secret'')\<lparr>question_bank := demo_bank\<rparr>))) = 1
   \<and> r_status (fst (auto_answer_with_report demo_world 101 ''Course'' ''ch1'' True True
        (\<lambda>a t. False) ((create_bot ''alice'' ''secret'')\<lparr>question_bank := demo_bank\<rparr>)))
       = InsufficientAnswers
   \<and> snd (run_chapters demo_world strict_config ''Course''
          [\<lparr>exam_id = 101, ch_name = ''ch1''\<rparr>, \<lparr>exam_id = 102, ch_name = ''ch2''\<rparr>]
          initial_acc ((create_bot ''alice'' ''secret'')\<lparr>question_bank := demo_bank\<rparr>))
       = snd (auto_answer_with_report demo_world 101 ''Course'' ''ch1'' True True
          (\<lambda>a t. False) ((create_bot ''alice'' ''secret'')\<lparr>question_bank := demo_bank\<rparr>))
   \<and> r_answered (fst (auto_answer_with_report demo_world 101 ''Course'' ''ch1'' True False
        (\<lambda>a t. False) ((create_bot ''alice'' ''secret'')\<lparr>question_bank := demo_bank\<rparr>))) = 4
   \<and> is_post_answers (last (calls_since ((create_bot ''alice'' ''secret'')\<lparr>question_bank := demo_bank\<rparr>)
        (snd (auto_answer_with_report demo_world 101 ''Course'' ''ch1'' True False
        (\<lambda>a t. False) ((create_bot ''alice'' ''secret'')\<lparr>question_bank := demo_bank\<rparr>)))))"
proof -
  let ?b = "(create_bot ''alice'' ''secret'')\<lparr>question_bank := demo_bank\<rparr>"
  let ?ch = "\<lparr>exam_id = 101, ch_name = ''ch1''\<rparr>"
  have t: "r_total (fst (auto_answer_with_report demo_world 101 ''Course'' ''ch1'' True True
        (\<lambda>a t. False) ?b)) = 5"
    by code_simp
  have mi: "r_missing (fst (auto_answer_with_report demo_world 101 ''Course'' ''ch1'' True True
        (\<lambda>a t. False) ?b)) = 1"
    by code_simp
  have t': "r_total (fst (auto_answer_with_report demo_world 101 ''Course'' ''ch1'' True False
        (\<lambda>a t. False) ?b)) = 5"
    by code_simp
  have a': "r_answered (fst (auto_answer_with_report demo_world 101 ''Course'' ''ch1'' True False
        (\<lambda>a t. False) ?b)) = 4"
    by code_simp
  have nc: "\<not> w_cancel demo_world (trace ?b)"
    by (simp add: demo_world_def)
  show ?thesis
    using
      strict_mode_policy [of demo_world ?ch "''Course''" strict_config ?b
        "[\<lparr>exam_id = 102, ch_name = ''ch2''\<rparr>]" initial_acc]
      strict_mode_policy [of demo_world ?ch "''Course''" default_config ?b "[]" initial_acc]
      t mi t' a' nc
    by (simp add: strict_config_def default_config_def Let_def)
qed

text \<open>
  The claim as written has every chapter submitted when strict mode is off and the
  coverage is not below the minimum rate. With the minimum rate zero and no answer
  found for any of the five questions, the coverage 0/5 is not below the rate, yet
  nothing is submitted: the report is an error, no answer having been generated.
\<close>

theorem lenient_chapter_without_answers_not_submitted:
  "r_total (fst (auto_answer_with_report demo_world 101 ''Course'' ''ch1'' True False
        (\<lambda>a t. False) (create_bot ''alice'' ''secret''))) = 5
   \<and> r_answered (fst (auto_answer_with_report demo_world 101 ''Course'' ''ch1'' True False
        (\<lambda>a t. False) (create_bot ''alice'' ''secret''))) = 0
   \<and> r_message (fst (auto_answer_with_report demo_world 101 ''Course'' ''ch1'' True False
        (\<lambda>a t. False) (create_bot ''alice'' ''secret''))) = NoAnswersGenerated
   \<and> \<not> r_success (fst (auto_answer_with_report demo_world 101 ''Course'' ''ch1'' True False
        (\<lambda>a t. False) (create_bot ''alice'' ''secret'')))
   \<and> \<not> list_ex is_post_answers (trace (snd (auto_answer_with_report demo_world 101 ''Course''
        ''ch1'' True False (\<lambda>a t. False) (create_bot ''alice'' ''secret''))))"
  by code_simp

section \<open>Properties of the scheduler\<close>

lemma dict_set_keys:
  "map fst (dict_set k v xs) = (if k \<in> set (map fst xs) then map fst xs else map fst xs @ [k])"
  by (induction xs) (auto simp: image_iff split: if_splits)

lemma dict_set_distinct: "distinct (map fst xs) \<Longrightarrow> distinct (map fst (dict_set k v xs))"
  by (simp add: dict_set_keys)

lemma dict_set_subset: "set (dict_set k v xs) \<subseteq> insert (k, v) (set xs)"
  by (induction xs) (auto split: if_splits)

lemma dict_set_old_entry:
  "distinct (map fst xs) \<Longrightarrow> e \<in> set (dict_set k v xs) \<Longrightarrow> e \<noteq> (k, v) \<Longrightarrow> e \<in> set xs \<and> fst e \<noteq> k"
proof (induction xs)
  case Nil
  then show ?case by simp
next
  case (Cons x xs)
  obtain k' v' where x: "x = (k', v')" by (cases x)
  show ?case
  proof (cases "k' = k")
    case True
    have "k \<notin> set (map fst xs)" using Cons.prems(1) x True by simp
    then have "fst e \<noteq> k" if "e \<in> set xs"
      using that by (metis image_eqI list.set_map)
    then show ?thesis using Cons.prems x True by auto
  next
    case False
    then show ?thesis using Cons x by auto
  qed
qed

lemma inv_active_mono:
  assumes "inv_active s" and "set (tasks s') \<subseteq> set (tasks s)"
    and "\<forall>e \<in> set (tasks s). qq_id (heap s' ! snd e) = qq_id (heap s ! snd e) \<and>
           (is_active (heap s' ! snd e) \<longrightarrow> is_active (heap s ! snd e))"
  shows "inv_active s'"
  unfolding inv_active_def
proof (intro ballI impI)
  fix e1 e2
  assume e: "e1 \<in> set (tasks s')" "e2 \<in> set (tasks s')"
    and h: "qq_id (heap s' ! snd e1) = qq_id (heap s' ! snd e2) \<and>
            is_active (heap s' ! snd e1) \<and> is_active (heap s' ! snd e2)"
  have i: "e1 \<in> set (tasks s)" "e2 \<in> set (tasks s)" using e assms(2) by auto
  have "qq_id (heap s ! snd e1) = qq_id (heap s ! snd e2)"
    using h i assms(3) by metis
  moreover have "is_active (heap s ! snd e1)" "is_active (heap s ! snd e2)"
    using h i assms(3) by blast+
  ultimately show "e1 = e2"
    using assms(1) i unfolding inv_active_def by blast
qed

lemma request_cancel_inv:
  assumes inv: "sched_inv s" and a: "a < length (heap s)" and nt: "\<not> is_terminal (heap s ! a)"
  shows "sched_inv (snd (request_cancel a now s))"
proof -
  let ?s' = "snd (request_cancel a now s)"
  have iq: "inv_queue s" and iw: "inv_workers s" and ii: "inv_index s" and ia: "inv_active s"
    using inv by (simp_all add: sched_inv_def)
  have t: "tasks ?s' = tasks s" and q: "queue ?s' = queue s" and w: "workers ?s' = workers s"
    and l: "length (heap ?s') = length (heap s)"
    by (simp_all add: request_cancel_def Let_def)
  have other: "\<And>x. x \<noteq> a \<Longrightarrow> heap ?s' ! x = heap s ! x"
    by (simp add: request_cancel_def Let_def)
  have self: "qq_id (heap ?s' ! a) = qq_id (heap s ! a)" "cancel_event (heap ?s' ! a)"
    "status (heap ?s' ! a) = (if status (heap s ! a) = Queued then Canceled else Canceling)"
    using a by (simp_all add: request_cancel_def Let_def)
  have 1: "inv_index ?s'"
    using ii by (simp add: inv_index_def t l)
  have 2: "inv_queue ?s'"
    unfolding inv_queue_def q l
  proof (intro conjI ballI)
    show "distinct (queue s)" using iq by (simp add: inv_queue_def)
    fix x assume x: "x \<in> set (queue s)"
    then show "x < length (heap s)" using iq by (simp add: inv_queue_def)
    have sx: "status (heap s ! x) = (if cancel_event (heap s ! x) then Canceled else Queued)"
      using iq x by (simp add: inv_queue_def)
    show "status (heap ?s' ! x) = (if cancel_event (heap ?s' ! x) then Canceled else Queued)"
    proof (cases "x = a")
      case True
      then have "status (heap s ! a) = Queued"
        using sx nt by (auto simp: is_terminal_def split: if_splits)
      then show ?thesis using True self by simp
    next
      case False
      then show ?thesis using sx other by simp
    qed
  qed
  have 3: "inv_workers ?s'"
    unfolding inv_workers_def w q l
  proof (intro allI impI)
    fix i x assume i: "i < length (workers s)" and h: "held (workers s ! i) = Some x"
    have old: "x < length (heap s) \<and> x \<notin> set (queue s) \<and>
        (status (heap s ! x) = Running \<or> status (heap s ! x) = Canceling) \<and>
        (\<forall>j < length (workers s). held (workers s ! j) = Some x \<longrightarrow> j = i)"
      using iw i h unfolding inv_workers_def by blast
    have "status (heap ?s' ! x) = Running \<or> status (heap ?s' ! x) = Canceling"
    proof (cases "x = a")
      case True
      then show ?thesis using old self by auto
    next
      case False
      then show ?thesis using old other by simp
    qed
    then show "x < length (heap s) \<and> x \<notin> set (queue s) \<and>
        (status (heap ?s' ! x) = Running \<or> status (heap ?s' ! x) = Canceling) \<and>
        (\<forall>j < length (workers s). held (workers s ! j) = Some x \<longrightarrow> j = i)"
      using old by simp
  qed
  have 4: "inv_active ?s'"
  proof (rule inv_active_mono [OF ia])
    show "set (tasks ?s') \<subseteq> set (tasks s)" by (simp add: t)
    show "\<forall>e \<in> set (tasks s). qq_id (heap ?s' ! snd e) = qq_id (heap s ! snd e) \<and>
           (is_active (heap ?s' ! snd e) \<longrightarrow> is_active (heap s ! snd e))"
    proof
      fix e assume "e \<in> set (tasks s)"
      show "qq_id (heap ?s' ! snd e) = qq_id (heap s ! snd e) \<and>
           (is_active (heap ?s' ! snd e) \<longrightarrow> is_active (heap s ! snd e))"
        using self other by (cases "snd e = a") (auto simp: is_active_def)
    qed
  qed
  show ?thesis using 1 2 3 4 by (simp add: sched_inv_def)
qed

lemma handle_cancel_inv: "sched_inv s \<Longrightarrow> sched_inv (snd (handle_cancel sender args now s))"
proof (cases args)
  case Nil
  assume "sched_inv s"
  then show ?thesis using Nil by (simp add: handle_cancel_def)
next
  case (Cons tid others)
  assume inv: "sched_inv s"
  show ?thesis
  proof (cases "map_of (tasks s) tid")
    case None
    then show ?thesis using inv Cons by (simp add: handle_cancel_def)
  next
    case (Some a)
    then have "(tid, a) \<in> set (tasks s)" by (rule map_of_SomeD)
    then have "a < length (heap s)"
      using inv by (auto simp: sched_inv_def inv_index_def)
    then show ?thesis
      using inv Cons Some request_cancel_inv [of s a now]
      by (simp add: handle_cancel_def)
  qed
qed

lemma admin_cancel_inv: "sched_inv s \<Longrightarrow> sched_inv (snd (admin_cancel args now s))"
proof (cases args)
  case Nil
  assume "sched_inv s"
  then show ?thesis using Nil by (simp add: admin_cancel_def)
next
  case (Cons tid others)
  assume inv: "sched_inv s"
  show ?thesis
  proof (cases "map_of (tasks s) tid")
    case None
    then show ?thesis using inv Cons by (simp add: admin_cancel_def)
  next
    case (Some a)
    then have "(tid, a) \<in> set (tasks s)" by (rule map_of_SomeD)
    then have "a < length (heap s)"
      using inv by (auto simp: sched_inv_def inv_index_def)
    then show ?thesis
      using inv Cons Some request_cancel_inv [of s a now]
      by (simp add: admin_cancel_def)
  qed
qed

lemma cleanup_tasks_inv: "sched_inv s \<Longrightarrow> sched_inv (cleanup_tasks now s)"
proof -
  assume inv: "sched_inv s"
  have "distinct (map fst (tasks s))" "\<forall>e \<in> set (tasks s). snd e < length (heap s)"
    using inv by (simp_all add: sched_inv_def inv_index_def)
  then have "inv_index (cleanup_tasks now s)"
    by (simp add: inv_index_def cleanup_tasks_def distinct_map_filter)
  moreover have "inv_queue (cleanup_tasks now s) = inv_queue s"
    by (simp add: inv_queue_def cleanup_tasks_def)
  moreover have "inv_workers (cleanup_tasks now s) = inv_workers s"
    by (simp add: inv_workers_def cleanup_tasks_def)
  moreover have "inv_active (cleanup_tasks now s)"
  proof (rule inv_active_mono)
    show "inv_active s" using inv by (simp add: sched_inv_def)
    show "set (tasks (cleanup_tasks now s)) \<subseteq> set (tasks s)"
      by (simp add: cleanup_tasks_def)
    show "\<forall>e \<in> set (tasks s).
            qq_id (heap (cleanup_tasks now s) ! snd e) = qq_id (heap s ! snd e) \<and>
            (is_active (heap (cleanup_tasks now s) ! snd e) \<longrightarrow> is_active (heap s ! snd e))"
      by (simp add: cleanup_tasks_def)
  qed
  ultimately show ?thesis using inv by (simp add: sched_inv_def)
qed

lemma start_sent_inv: "sched_inv s \<Longrightarrow> sched_inv (start_sent i ok s)"
proof (cases "i < length (workers s) \<and> (\<exists>a. workers s ! i = Starting a)")
  case False
  assume "sched_inv s"
  then show ?thesis using False by (auto simp: start_sent_def split: worker.splits)
next
  case True
  assume inv: "sched_inv s"
  from True obtain a where i: "i < length (workers s)" and wi: "workers s ! i = Starting a"
    by blast
  let ?w = "if ok then Executing a else Dead"
  have e: "start_sent i ok s = s\<lparr>workers := (workers s)[i := ?w]\<rparr>"
    using i wi by (simp add: start_sent_def)
  have hw: "held ?w = None \<or> held ?w = held (workers s ! i)"
    using wi by simp
  have "inv_workers (s\<lparr>workers := (workers s)[i := ?w]\<rparr>)"
    unfolding inv_workers_def
  proof (intro allI impI)
    fix k x
    assume k: "k < length (workers (s\<lparr>workers := (workers s)[i := ?w]\<rparr>))"
      and h: "held (workers (s\<lparr>workers := (workers s)[i := ?w]\<rparr>) ! k) = Some x"
    have k': "k < length (workers s)" using k by simp
    have hk: "held (workers s ! k) = Some x"
      using h hw k' by (cases "k = i") (auto simp: nth_list_update)
    have old: "x < length (heap s) \<and> x \<notin> set (queue s) \<and>
        (status (heap s ! x) = Running \<or> status (heap s ! x) = Canceling) \<and>
        (\<forall>j < length (workers s). held (workers s ! j) = Some x \<longrightarrow> j = k)"
      using inv k' hk unfolding sched_inv_def inv_workers_def by blast
    have "\<forall>j < length (workers s). held ((workers s)[i := ?w] ! j) = Some x \<longrightarrow> j = k"
    proof (intro allI impI)
      fix j assume j: "j < length (workers s)" and hj: "held ((workers s)[i := ?w] ! j) = Some x"
      have "held (workers s ! j) = Some x"
        using hj hw j by (cases "j = i") (auto simp: nth_list_update)
      then show "j = k" using old j by blast
    qed
    then show "x < length (heap (s\<lparr>workers := (workers s)[i := ?w]\<rparr>)) \<and>
        x \<notin> set (queue (s\<lparr>workers := (workers s)[i := ?w]\<rparr>)) \<and>
        (status (heap (s\<lparr>workers := (workers s)[i := ?w]\<rparr>) ! x) = Running \<or>
         status (heap (s\<lparr>workers := (workers s)[i := ?w]\<rparr>) ! x) = Canceling) \<and>
        (\<forall>j < length (workers (s\<lparr>workers := (workers s)[i := ?w]\<rparr>)).
            held (workers (s\<lparr>workers := (workers s)[i := ?w]\<rparr>) ! j) = Some x \<longrightarrow> j = k)"
      using old by simp
  qed
  then show ?thesis
    using inv unfolding e by (simp add: sched_inv_def inv_index_def inv_queue_def inv_active_def)
qed

lemma report_sent_inv: "sched_inv s \<Longrightarrow> sched_inv (report_sent i ok s)"
proof (cases "i < length (workers s) \<and> (\<exists>a. workers s ! i = Reporting a)")
  case False
  assume "sched_inv s"
  then show ?thesis using False by (auto simp: report_sent_def split: worker.splits)
next
  case True
  assume inv: "sched_inv s"
  from True obtain a where i: "i < length (workers s)" and wi: "workers s ! i = Reporting a"
    by blast
  let ?w = "if ok then Idle else Dead"
  let ?s' = "s\<lparr>workers := (workers s)[i := ?w]\<rparr>"
  have e: "report_sent i ok s = ?s'"
    using i wi by (simp add: report_sent_def)
  have hw: "held ?w = None" by simp
  have iw: "inv_workers s" using inv by (simp add: sched_inv_def)
  have "inv_workers ?s'"
    unfolding inv_workers_def
  proof (intro allI impI)
    fix k x
    assume k: "k < length (workers ?s')" and h: "held (workers ?s' ! k) = Some x"
    have k': "k < length (workers s)" using k by simp
    have ki: "k \<noteq> i" using h hw k' by (auto simp: nth_list_update)
    have hk: "held (workers s ! k) = Some x" using h ki by simp
    have old: "x < length (heap s) \<and> x \<notin> set (queue s) \<and>
        (status (heap s ! x) = Running \<or> status (heap s ! x) = Canceling) \<and>
        (\<forall>j < length (workers s). held (workers s ! j) = Some x \<longrightarrow> j = k)"
      using iw k' hk unfolding inv_workers_def by blast
    have "\<forall>j < length (workers s). held ((workers s)[i := ?w] ! j) = Some x \<longrightarrow> j = k"
    proof (intro allI impI)
      fix j assume j: "j < length (workers s)" and hj: "held ((workers s)[i := ?w] ! j) = Some x"
      have "j \<noteq> i" using hj hw j by (auto simp: nth_list_update)
      then have "held (workers s ! j) = Some x" using hj by simp
      then show "j = k" using old j by blast
    qed
    then show "x < length (heap ?s') \<and> x \<notin> set (queue ?s') \<and>
        (status (heap ?s' ! x) = Running \<or> status (heap ?s' ! x) = Canceling) \<and>
        (\<forall>j < length (workers ?s'). held (workers ?s' ! j) = Some x \<longrightarrow> j = k)"
      using old by simp
  qed
  moreover have "inv_index ?s' = inv_index s" by (simp add: inv_index_def)
  moreover have "inv_queue ?s' = inv_queue s" by (simp add: inv_queue_def)
  moreover have "inv_active ?s' = inv_active s" by (simp add: inv_active_def)
  ultimately show ?thesis
    using inv unfolding e by (simp add: sched_inv_def)
qed

lemma exec_done_inv: "sched_inv s \<Longrightarrow> sched_inv (exec_done i outcome cname now s)"
proof (cases "i < length (workers s) \<and> (\<exists>a. workers s ! i = Executing a)")
  case False
  assume "sched_inv s"
  then show ?thesis using False by (auto simp: exec_done_def split: worker.splits)
next
  case True
  assume inv: "sched_inv s"
  from True obtain a where i: "i < length (workers s)" and wi: "workers s ! i = Executing a"
    by blast
  let ?t = "finish_task outcome cname now (heap s ! a)"
  let ?s' = "s\<lparr>heap := (heap s)[a := ?t], workers := (workers s)[i := Reporting a]\<rparr>"
  have e: "exec_done i outcome cname now s = ?s'"
    using i wi by (simp add: exec_done_def)
  have iq: "inv_queue s" and iw: "inv_workers s" and ii: "inv_index s" and ia: "inv_active s"
    using inv by (simp_all add: sched_inv_def)
  have ha: "a < length (heap s)" "a \<notin> set (queue s)"
    "\<forall>j < length (workers s). held (workers s ! j) = Some a \<longrightarrow> j = i"
    using iw i wi unfolding inv_workers_def by (metis held.simps(2))+
  have tq: "qq_id ?t = qq_id (heap s ! a)" "\<not> is_active ?t"
    by (auto simp: finish_task_def is_active_def split: sum.splits)
  have 1: "inv_index ?s'" using ii by (simp add: inv_index_def)
  have 2: "inv_queue ?s'"
    unfolding inv_queue_def
  proof (intro conjI ballI)
    show "distinct (queue ?s')" using iq by (simp add: inv_queue_def)
    fix x assume x: "x \<in> set (queue ?s')"
    then have xq: "x \<in> set (queue s)" by simp
    then have xa: "x \<noteq> a" using ha by auto
    show "x < length (heap ?s')" using iq xq by (simp add: inv_queue_def)
    have "status (heap s ! x) = (if cancel_event (heap s ! x) then Canceled else Queued)"
      using iq xq by (simp add: inv_queue_def)
    then show "status (heap ?s' ! x) = (if cancel_event (heap ?s' ! x) then Canceled else Queued)"
      using xa by simp
  qed
  have 3: "inv_workers ?s'"
    unfolding inv_workers_def
  proof (intro allI impI)
    fix k x
    assume k: "k < length (workers ?s')" and h: "held (workers ?s' ! k) = Some x"
    have k': "k < length (workers s)" using k by simp
    have ki: "k \<noteq> i" using h k' by (auto simp: nth_list_update)
    have hk: "held (workers s ! k) = Some x" using h ki by simp
    have old: "x < length (heap s) \<and> x \<notin> set (queue s) \<and>
        (status (heap s ! x) = Running \<or> status (heap s ! x) = Canceling) \<and>
        (\<forall>j < length (workers s). held (workers s ! j) = Some x \<longrightarrow> j = k)"
      using iw k' hk unfolding inv_workers_def by blast
    have xa: "x \<noteq> a" using ha(3) hk k' ki by blast
    have "\<forall>j < length (workers s). held ((workers s)[i := Reporting a] ! j) = Some x \<longrightarrow> j = k"
    proof (intro allI impI)
      fix j assume j: "j < length (workers s)"
        and hj: "held ((workers s)[i := Reporting a] ! j) = Some x"
      have "j \<noteq> i" using hj j by (auto simp: nth_list_update)
      then have "held (workers s ! j) = Some x" using hj by simp
      then show "j = k" using old j by blast
    qed
    then show "x < length (heap ?s') \<and> x \<notin> set (queue ?s') \<and>
        (status (heap ?s' ! x) = Running \<or> status (heap ?s' ! x) = Canceling) \<and>
        (\<forall>j < length (workers ?s'). held (workers ?s' ! j) = Some x \<longrightarrow> j = k)"
      using old xa by simp
  qed
  have 4: "inv_active ?s'"
  proof (rule inv_active_mono [OF ia])
    show "set (tasks ?s') \<subseteq> set (tasks s)" by simp
    show "\<forall>e \<in> set (tasks s). qq_id (heap ?s' ! snd e) = qq_id (heap s ! snd e) \<and>
           (is_active (heap ?s' ! snd e) \<longrightarrow> is_active (heap s ! snd e))"
    proof
      fix e assume "e \<in> set (tasks s)"
      show "qq_id (heap ?s' ! snd e) = qq_id (heap s ! snd e) \<and>
           (is_active (heap ?s' ! snd e) \<longrightarrow> is_active (heap s ! snd e))"
        using tq ha(1) by (cases "snd e = a") simp_all
    qed
  qed
  show ?thesis unfolding e using 1 2 3 4 by (simp add: sched_inv_def)
qed

lemma worker_get_inv: "sched_inv s \<Longrightarrow> sched_inv (worker_get i now s)"
proof (cases "i < length (workers s) \<and> workers s ! i = Idle \<and> queue s \<noteq> []")
  case False
  assume "sched_inv s"
  then show ?thesis using False by (auto simp: worker_get_def split: list.splits)
next
  case True
  assume inv: "sched_inv s"
  from True obtain a rest where i: "i < length (workers s)" and wi: "workers s ! i = Idle"
    and q: "queue s = a # rest"
    by (cases "queue s") auto
  have iq: "inv_queue s" and iw: "inv_workers s" and ii: "inv_index s" and ia: "inv_active s"
    using inv by (simp_all add: sched_inv_def)
  have ha: "a < length (heap s)" "a \<notin> set rest" "distinct rest"
    "status (heap s ! a) = (if cancel_event (heap s ! a) then Canceled else Queued)"
    using iq q by (simp_all add: inv_queue_def)
  have rest: "\<And>x. x \<in> set rest \<Longrightarrow> x \<noteq> a \<and> x < length (heap s) \<and>
      status (heap s ! x) = (if cancel_event (heap s ! x) then Canceled else Queued)"
    using iq q ha(2) by (auto simp: inv_queue_def)
  have heldold: "\<And>k x. k < length (workers s) \<Longrightarrow> held (workers s ! k) = Some x \<Longrightarrow>
      x < length (heap s) \<and> x \<noteq> a \<and> x \<notin> set rest \<and>
      (status (heap s ! x) = Running \<or> status (heap s ! x) = Canceling) \<and>
      (\<forall>j < length (workers s). held (workers s ! j) = Some x \<longrightarrow> j = k)"
  proof -
    fix k x assume k: "k < length (workers s)" and h: "held (workers s ! k) = Some x"
    have "x < length (heap s) \<and> x \<notin> set (queue s) \<and>
        (status (heap s ! x) = Running \<or> status (heap s ! x) = Canceling) \<and>
        (\<forall>j < length (workers s). held (workers s ! j) = Some x \<longrightarrow> j = k)"
      using iw k h unfolding inv_workers_def by blast
    then show "x < length (heap s) \<and> x \<noteq> a \<and> x \<notin> set rest \<and>
      (status (heap s ! x) = Running \<or> status (heap s ! x) = Canceling) \<and>
      (\<forall>j < length (workers s). held (workers s ! j) = Some x \<longrightarrow> j = k)"
      using q by auto
  qed
  show ?thesis
  proof (cases "cancel_event (heap s ! a)")
    case True
    let ?t = "(heap s ! a)\<lparr>status := Canceled, finished_at := Some now\<rparr>"
    let ?s' = "s\<lparr>heap := (heap s)[a := ?t], queue := rest\<rparr>"
    have e: "worker_get i now s = ?s'"
      using i wi q True by (simp add: worker_get_def)
    have 1: "inv_index ?s'" using ii by (simp add: inv_index_def)
    have 2: "inv_queue ?s'"
      unfolding inv_queue_def
    proof (intro conjI ballI)
      show "distinct (queue ?s')" using ha(3) by simp
      fix x assume "x \<in> set (queue ?s')"
      then have x: "x \<in> set rest" by simp
      show "x < length (heap ?s')" using rest [OF x] by simp
      show "status (heap ?s' ! x) = (if cancel_event (heap ?s' ! x) then Canceled else Queued)"
        using rest [OF x] by simp
    qed
    have 3: "inv_workers ?s'"
      unfolding inv_workers_def
    proof (intro allI impI)
      fix k x
      assume k: "k < length (workers ?s')" and h: "held (workers ?s' ! k) = Some x"
      have k': "k < length (workers s)" and hk: "held (workers s ! k) = Some x"
        using k h by simp_all
      show "x < length (heap ?s') \<and> x \<notin> set (queue ?s') \<and>
          (status (heap ?s' ! x) = Running \<or> status (heap ?s' ! x) = Canceling) \<and>
          (\<forall>j < length (workers ?s'). held (workers ?s' ! j) = Some x \<longrightarrow> j = k)"
        using heldold [OF k' hk] by simp
    qed
    have 4: "inv_active ?s'"
    proof (rule inv_active_mono [OF ia])
      show "set (tasks ?s') \<subseteq> set (tasks s)" by simp
      show "\<forall>e \<in> set (tasks s). qq_id (heap ?s' ! snd e) = qq_id (heap s ! snd e) \<and>
             (is_active (heap ?s' ! snd e) \<longrightarrow> is_active (heap s ! snd e))"
      proof
        fix e assume "e \<in> set (tasks s)"
        show "qq_id (heap ?s' ! snd e) = qq_id (heap s ! snd e) \<and>
             (is_active (heap ?s' ! snd e) \<longrightarrow> is_active (heap s ! snd e))"
          using ha(1) by (cases "snd e = a") (simp_all add: is_active_def)
      qed
    qed
    show ?thesis unfolding e using 1 2 3 4 by (simp add: sched_inv_def)
  next
    case False
    let ?t = "(heap s ! a)\<lparr>status := Running, started_at := Some now\<rparr>"
    let ?s' = "s\<lparr>heap := (heap s)[a := ?t], queue := rest, workers := (workers s)[i := Starting a]\<rparr>"
    have e: "worker_get i now s = ?s'"
      using i wi q False by (simp add: worker_get_def)
    have sa: "status (heap s ! a) = Queued" using ha(4) False by simp
    have 1: "inv_index ?s'" using ii by (simp add: inv_index_def)
    have 2: "inv_queue ?s'"
      unfolding inv_queue_def
    proof (intro conjI ballI)
      show "distinct (queue ?s')" using ha(3) by simp
      fix x assume "x \<in> set (queue ?s')"
      then have x: "x \<in> set rest" by simp
      show "x < length (heap ?s')" using rest [OF x] by simp
      show "status (heap ?s' ! x) = (if cancel_event (heap ?s' ! x) then Canceled else Queued)"
        using rest [OF x] by simp
    qed
    have 3: "inv_workers ?s'"
      unfolding inv_workers_def
    proof (intro allI impI)
      fix k x
      assume k: "k < length (workers ?s')" and h: "held (workers ?s' ! k) = Some x"
      have k': "k < length (workers s)" using k by simp
      show "x < length (heap ?s') \<and> x \<notin> set (queue ?s') \<and>
          (status (heap ?s' ! x) = Running \<or> status (heap ?s' ! x) = Canceling) \<and>
          (\<forall>j < length (workers ?s'). held (workers ?s' ! j) = Some x \<longrightarrow> j = k)"
      proof (cases "k = i")
        case True
        then have xa: "x = a" using h i by simp
        have "\<forall>j < length (workers s). held ((workers s)[i := Starting a] ! j) = Some a \<longrightarrow> j = i"
        proof (intro allI impI)
          fix j assume j: "j < length (workers s)"
            and hj: "held ((workers s)[i := Starting a] ! j) = Some a"
          show "j = i"
          proof (rule ccontr)
            assume "j \<noteq> i"
            then have "held (workers s ! j) = Some a" using hj by simp
            then show False using heldold [OF j] by blast
          qed
        qed
        then show ?thesis using xa True ha by simp
      next
        case ki: False
        then have hk: "held (workers s ! k) = Some x" using h by simp
        note o = heldold [OF k' hk]
        have "\<forall>j < length (workers s). held ((workers s)[i := Starting a] ! j) = Some x \<longrightarrow> j = k"
        proof (intro allI impI)
          fix j assume j: "j < length (workers s)"
            and hj: "held ((workers s)[i := Starting a] ! j) = Some x"
          have "j \<noteq> i" using hj j o i by (auto simp: nth_list_update)
          then have "held (workers s ! j) = Some x" using hj by simp
          then show "j = k" using o j by blast
        qed
        then show ?thesis using o by simp
      qed
    qed
    have 4: "inv_active ?s'"
    proof (rule inv_active_mono [OF ia])
      show "set (tasks ?s') \<subseteq> set (tasks s)" by simp
      show "\<forall>e \<in> set (tasks s). qq_id (heap ?s' ! snd e) = qq_id (heap s ! snd e) \<and>
             (is_active (heap ?s' ! snd e) \<longrightarrow> is_active (heap s ! snd e))"
      proof
        fix e assume "e \<in> set (tasks s)"
        show "qq_id (heap ?s' ! snd e) = qq_id (heap s ! snd e) \<and>
             (is_active (heap ?s' ! snd e) \<longrightarrow> is_active (heap s ! snd e))"
          using ha(1) sa by (cases "snd e = a") (simp_all add: is_active_def)
      qed
    qed
    show ?thesis unfolding e using 1 2 3 4 by (simp add: sched_inv_def)
  qed
qed

lemma handle_start_rejected:
  "fst (handle_start req s) \<noteq> ReplyQueued (sr_uuid req) (length (queue s) + 1) \<Longrightarrow>
   snd (handle_start req s) = s"
  by (auto simp: handle_start_def Let_def split: sum.splits prod.splits if_splits)

lemma handle_start_inv: "sched_inv s \<Longrightarrow> sched_inv (snd (handle_start req s))"
proof (cases "\<exists>cid cname m par. sr_preamble req = Inr (cid, cname, m, par)
      \<and> \<not> ((m = ModeExplicit \<or> m = ModeRange) \<and> par = [])
      \<and> \<not> has_active_task s (sr_sender_id req)")
  case False
  assume "sched_inv s"
  moreover have "snd (handle_start req s) = s"
    using False by (auto simp: handle_start_def split: sum.splits prod.splits)
  ultimately show ?thesis by simp
next
  case True
  assume inv: "sched_inv s"
  from True obtain cid cname m par where p: "sr_preamble req = Inr (cid, cname, m, par)"
    and ok: "\<not> ((m = ModeExplicit \<or> m = ModeRange) \<and> par = [])"
    and na: "\<not> has_active_task s (sr_sender_id req)"
    by blast
  let ?task = "\<lparr>task_id = sr_uuid req, qq_id = sr_sender_id req,
                    sender_name = sr_sender_name req, umo = sr_umo req, course_id = cid,
                    course_name = Some cname, mode = m, spec = par, status = Queued,
                    created_at = sr_now req, started_at = None, finished_at = None,
                    cancel_event = False, summary = None, error = None\<rparr>"
  let ?a = "length (heap s)"
  let ?s' = "s\<lparr>heap := heap s @ [?task], tasks := dict_set (sr_uuid req) ?a (tasks s),
                 queue := queue s @ [?a]\<rparr>"
  have e: "snd (handle_start req s) = ?s'"
    using p ok na by (auto simp: handle_start_def Let_def)
  have iq: "inv_queue s" and iw: "inv_workers s" and ii: "inv_index s" and ia: "inv_active s"
    using inv by (simp_all add: sched_inv_def)
  have dk: "distinct (map fst (tasks s))" and va: "\<And>x. x \<in> set (tasks s) \<Longrightarrow> snd x < ?a"
    using ii by (simp_all add: inv_index_def)
  have entry: "\<And>x. x \<in> set (dict_set (sr_uuid req) ?a (tasks s)) \<Longrightarrow>
      x = (sr_uuid req, ?a) \<or> (x \<in> set (tasks s) \<and> snd x < ?a)"
    using dict_set_subset [of "sr_uuid req" ?a "tasks s"] va by blast
  have 1: "inv_index ?s'"
    unfolding inv_index_def
  proof (intro conjI ballI)
    show "distinct (map fst (tasks ?s'))" using dk by (simp add: dict_set_distinct)
    fix x assume "x \<in> set (tasks ?s')"
    then show "snd x < length (heap ?s')" using entry [of x] by auto
  qed
  have qold: "\<And>x. x \<in> set (queue s) \<Longrightarrow> x < ?a \<and>
      status (heap s ! x) = (if cancel_event (heap s ! x) then Canceled else Queued)"
    using iq by (simp add: inv_queue_def)
  have 2: "inv_queue ?s'"
    unfolding inv_queue_def
  proof (intro conjI ballI)
    have "?a \<notin> set (queue s)" using qold by blast
    then show "distinct (queue ?s')" using iq by (simp add: inv_queue_def)
    fix x assume "x \<in> set (queue ?s')"
    then have "x = ?a \<or> x \<in> set (queue s)" by auto
    then show "x < length (heap ?s')" using qold [of x] by auto
    show "status (heap ?s' ! x) = (if cancel_event (heap ?s' ! x) then Canceled else Queued)"
    proof (cases "x = ?a")
      case True
      then show ?thesis by simp
    next
      case False
      then have "x \<in> set (queue s)" using \<open>x = ?a \<or> x \<in> set (queue s)\<close> by simp
      then show ?thesis using qold [of x] by (simp add: nth_append)
    qed
  qed
  have 3: "inv_workers ?s'"
    unfolding inv_workers_def
  proof (intro allI impI)
    fix k x
    assume k: "k < length (workers ?s')" and h: "held (workers ?s' ! k) = Some x"
    have k': "k < length (workers s)" and hk: "held (workers s ! k) = Some x"
      using k h by simp_all
    have old: "x < length (heap s) \<and> x \<notin> set (queue s) \<and>
        (status (heap s ! x) = Running \<or> status (heap s ! x) = Canceling) \<and>
        (\<forall>j < length (workers s). held (workers s ! j) = Some x \<longrightarrow> j = k)"
      using iw k' hk unfolding inv_workers_def by blast
    then show "x < length (heap ?s') \<and> x \<notin> set (queue ?s') \<and>
        (status (heap ?s' ! x) = Running \<or> status (heap ?s' ! x) = Canceling) \<and>
        (\<forall>j < length (workers ?s'). held (workers ?s' ! j) = Some x \<longrightarrow> j = k)"
      by (simp add: nth_append)
  qed
  have noact: "\<And>x. x \<in> set (tasks s) \<Longrightarrow> qq_id (heap s ! snd x) = sr_sender_id req \<Longrightarrow>
      \<not> is_active (heap s ! snd x)"
    using na by (auto simp: has_active_task_def list_ex_iff)
  have 4: "inv_active ?s'"
    unfolding inv_active_def
  proof (intro ballI impI)
    fix e1 e2
    assume m1: "e1 \<in> set (tasks ?s')" and m2: "e2 \<in> set (tasks ?s')"
      and h: "qq_id (heap ?s' ! snd e1) = qq_id (heap ?s' ! snd e2) \<and>
              is_active (heap ?s' ! snd e1) \<and> is_active (heap ?s' ! snd e2)"
    have c1: "e1 = (sr_uuid req, ?a) \<or> (e1 \<in> set (tasks s) \<and> snd e1 < ?a)"
      using entry [of e1] m1 by simp
    have c2: "e2 = (sr_uuid req, ?a) \<or> (e2 \<in> set (tasks s) \<and> snd e2 < ?a)"
      using entry [of e2] m2 by simp
    show "e1 = e2"
    proof (cases "e1 = (sr_uuid req, ?a)")
      case n1: True
      show ?thesis
      proof (cases "e2 = (sr_uuid req, ?a)")
        case True
        then show ?thesis using n1 by simp
      next
        case False
        then have o2: "e2 \<in> set (tasks s)" "snd e2 < ?a" using c2 by auto
        have "qq_id (heap s ! snd e2) = sr_sender_id req" "is_active (heap s ! snd e2)"
          using h n1 o2 by (simp_all add: nth_append)
        then show ?thesis using noact o2(1) by blast
      qed
    next
      case n1: False
      then have o1: "e1 \<in> set (tasks s)" "snd e1 < ?a" using c1 by auto
      show ?thesis
      proof (cases "e2 = (sr_uuid req, ?a)")
        case True
        have "qq_id (heap s ! snd e1) = sr_sender_id req" "is_active (heap s ! snd e1)"
          using h True o1 by (simp_all add: nth_append)
        then show ?thesis using noact o1(1) by blast
      next
        case False
        then have o2: "e2 \<in> set (tasks s)" "snd e2 < ?a" using c2 by auto
        have "qq_id (heap s ! snd e1) = qq_id (heap s ! snd e2) \<and>
              is_active (heap s ! snd e1) \<and> is_active (heap s ! snd e2)"
          using h o1 o2 by (simp add: nth_append)
        then show ?thesis using ia o1(1) o2(1) unfolding inv_active_def by blast
      qed
    qed
  qed
  show ?thesis unfolding e using 1 2 3 4 by (simp add: sched_inv_def)
qed

lemma step_inv: "sched_inv s \<Longrightarrow> sched_inv (step e s)"
  by (cases e)
     (simp_all add: handle_start_inv handle_cancel_inv admin_cancel_inv cleanup_tasks_inv
        worker_get_inv start_sent_inv exec_done_inv report_sent_inv)

lemma run_inv: "sched_inv s \<Longrightarrow> sched_inv (run evs s)"
  by (induction evs arbitrary: s) (simp_all add: step_inv)

lemma init_inv: "sched_inv (init_scheduler v)"
  by (simp add: sched_inv_def inv_index_def inv_queue_def inv_workers_def inv_active_def
      init_scheduler_def)






section \<open>Times and final states of tasks\<close>

lemma times_ok_mono: "times_ok c t \<Longrightarrow> c \<le> c' \<Longrightarrow> times_ok c' t"
  by (auto simp: times_ok_def split: option.splits)

lemma inv_times_mono: "inv_times c s \<Longrightarrow> c \<le> c' \<Longrightarrow> inv_times c' s"
  unfolding inv_times_def using times_ok_mono by blast

lemma inv_times_update:
  assumes "inv_times c s" and "c \<le> c'" and "length (heap s') = length (heap s)"
    and "\<And>x. x < length (heap s) \<Longrightarrow> x \<noteq> a \<Longrightarrow> heap s' ! x = heap s ! x"
    and "a < length (heap s) \<Longrightarrow> times_ok c' (heap s' ! a)"
  shows "inv_times c' s'"
  unfolding inv_times_def
proof (intro allI impI)
  fix x assume x: "x < length (heap s')"
  show "times_ok c' (heap s' ! x)"
  proof (cases "x = a")
    case True
    then show ?thesis using assms(3,5) x by simp
  next
    case False
    have "times_ok c (heap s ! x)" using assms(1,3) x by (simp add: inv_times_def)
    then show ?thesis using assms(2,3,4) x False times_ok_mono by simp
  qed
qed

lemma request_cancel_times:
  assumes "inv_times c s" and "c \<le> now" and "a < length (heap s)"
    and "\<not> is_terminal (heap s ! a)"
  shows "inv_times now (snd (request_cancel a now s))"
proof (rule inv_times_update [OF assms(1,2), where a = a])
  show "length (heap (snd (request_cancel a now s))) = length (heap s)"
    by (simp add: request_cancel_def Let_def)
  show "\<And>x. x < length (heap s) \<Longrightarrow> x \<noteq> a \<Longrightarrow> heap (snd (request_cancel a now s)) ! x = heap s ! x"
    by (simp add: request_cancel_def Let_def)
  have t: "times_ok c (heap s ! a)" using assms(1,3) by (simp add: inv_times_def)
  show "times_ok now (heap (snd (request_cancel a now s)) ! a)"
    using t assms(2,3,4)
    by (cases "status (heap s ! a)")
       (auto simp: request_cancel_def Let_def times_ok_def is_terminal_def split: option.splits)
qed

lemma handle_cancel_times:
  assumes "sched_inv s" and "inv_times c s" and "c \<le> now"
  shows "inv_times now (snd (handle_cancel sender args now s))"
proof (cases args)
  case Nil
  then show ?thesis using assms inv_times_mono by (simp add: handle_cancel_def)
next
  case (Cons tid others)
  show ?thesis
  proof (cases "map_of (tasks s) tid")
    case None
    then show ?thesis using assms Cons inv_times_mono by (simp add: handle_cancel_def)
  next
    case (Some a)
    then have "(tid, a) \<in> set (tasks s)" by (rule map_of_SomeD)
    then have "a < length (heap s)"
      using assms(1) by (auto simp: sched_inv_def inv_index_def)
    then show ?thesis
      using assms(2,3) Cons Some request_cancel_times [of c s now a] inv_times_mono [of c s now]
      by (simp add: handle_cancel_def)
  qed
qed

lemma admin_cancel_times:
  assumes "sched_inv s" and "inv_times c s" and "c \<le> now"
  shows "inv_times now (snd (admin_cancel args now s))"
proof (cases args)
  case Nil
  then show ?thesis using assms inv_times_mono by (simp add: admin_cancel_def)
next
  case (Cons tid others)
  show ?thesis
  proof (cases "map_of (tasks s) tid")
    case None
    then show ?thesis using assms Cons inv_times_mono by (simp add: admin_cancel_def)
  next
    case (Some a)
    then have "(tid, a) \<in> set (tasks s)" by (rule map_of_SomeD)
    then have "a < length (heap s)"
      using assms(1) by (auto simp: sched_inv_def inv_index_def)
    then show ?thesis
      using assms(2,3) Cons Some request_cancel_times [of c s now a] inv_times_mono [of c s now]
      by (simp add: admin_cancel_def)
  qed
qed

lemma cleanup_tasks_times: "inv_times c s \<Longrightarrow> c \<le> now \<Longrightarrow> inv_times now (cleanup_tasks now s)"
proof -
  assume a: "inv_times c s" "c \<le> now"
  have "inv_times now (cleanup_tasks now s) = inv_times now s"
    by (simp add: inv_times_def cleanup_tasks_def)
  then show ?thesis using a inv_times_mono by blast
qed

lemma start_sent_times: "inv_times c s \<Longrightarrow> inv_times c (start_sent i ok s)"
proof -
  assume a: "inv_times c s"
  have "heap (start_sent i ok s) = heap s"
    by (simp add: start_sent_def split: worker.splits)
  then show ?thesis using a by (simp add: inv_times_def)
qed

lemma report_sent_times: "inv_times c s \<Longrightarrow> inv_times c (report_sent i ok s)"
proof -
  assume a: "inv_times c s"
  have "heap (report_sent i ok s) = heap s"
    by (simp add: report_sent_def split: worker.splits)
  then show ?thesis using a by (simp add: inv_times_def)
qed

lemma exec_done_times:
  assumes "sched_inv s" and "inv_times c s" and "c \<le> now"
  shows "inv_times now (exec_done i outcome cname now s)"
proof (cases "i < length (workers s) \<and> (\<exists>a. workers s ! i = Executing a)")
  case False
  then have "exec_done i outcome cname now s = s"
    by (auto simp: exec_done_def split: worker.splits)
  then show ?thesis using assms inv_times_mono by simp
next
  case True
  then obtain a where i: "i < length (workers s)" and wi: "workers s ! i = Executing a"
    by blast
  let ?t = "finish_task outcome cname now (heap s ! a)"
  let ?s' = "s\<lparr>heap := (heap s)[a := ?t], workers := (workers s)[i := Reporting a]\<rparr>"
  have e: "exec_done i outcome cname now s = ?s'"
    using i wi by (simp add: exec_done_def)
  have iw: "inv_workers s" using assms(1) by (simp add: sched_inv_def)
  have ha: "a < length (heap s)" "status (heap s ! a) = Running \<or> status (heap s ! a) = Canceling"
    using iw i wi unfolding inv_workers_def by (metis held.simps(2))+
  have t: "times_ok c (heap s ! a)" using assms(2) ha(1) by (simp add: inv_times_def)
  have "times_ok now ?t"
    using t ha(2) assms(3)
    by (auto simp: finish_task_def times_ok_def is_terminal_def split: sum.splits option.splits)
  then have "inv_times now ?s'"
    using ha(1) by (intro inv_times_update [OF assms(2,3), where a = a]) simp_all
  then show ?thesis unfolding e .
qed

lemma worker_get_times:
  assumes "sched_inv s" and "inv_times c s" and "c \<le> now"
  shows "inv_times now (worker_get i now s)"
proof (cases "i < length (workers s) \<and> workers s ! i = Idle \<and> queue s \<noteq> []")
  case False
  then have "worker_get i now s = s"
    by (auto simp: worker_get_def split: list.splits)
  then show ?thesis using assms inv_times_mono by simp
next
  case True
  then obtain a rest where i: "i < length (workers s)" and wi: "workers s ! i = Idle"
    and q: "queue s = a # rest"
    by (cases "queue s") auto
  have iq: "inv_queue s" using assms(1) by (simp add: sched_inv_def)
  have ha: "a < length (heap s)"
    "status (heap s ! a) = (if cancel_event (heap s ! a) then Canceled else Queued)"
    using iq q by (simp_all add: inv_queue_def)
  have t: "times_ok c (heap s ! a)" using assms(2) ha(1) by (simp add: inv_times_def)
  show ?thesis
  proof (cases "cancel_event (heap s ! a)")
    case True
    let ?t = "(heap s ! a)\<lparr>status := Canceled, finished_at := Some now\<rparr>"
    let ?s' = "s\<lparr>heap := (heap s)[a := ?t], queue := rest\<rparr>"
    have e: "worker_get i now s = ?s'"
      using i wi q True by (simp add: worker_get_def)
    have "times_ok now ?t"
      using t assms(3) by (auto simp: times_ok_def is_terminal_def split: option.splits)
    then have "inv_times now ?s'"
      using ha(1) by (intro inv_times_update [OF assms(2,3), where a = a]) simp_all
    then show ?thesis unfolding e .
  next
    case False
    let ?t = "(heap s ! a)\<lparr>status := Running, started_at := Some now\<rparr>"
    let ?s' = "s\<lparr>heap := (heap s)[a := ?t], queue := rest, workers := (workers s)[i := Starting a]\<rparr>"
    have e: "worker_get i now s = ?s'"
      using i wi q False by (simp add: worker_get_def)
    have sa: "status (heap s ! a) = Queued" using ha(2) False by simp
    have "times_ok now ?t"
      using t assms(3) sa by (auto simp: times_ok_def is_terminal_def split: option.splits)
    then have "inv_times now ?s'"
      using ha(1) by (intro inv_times_update [OF assms(2,3), where a = a]) simp_all
    then show ?thesis unfolding e .
  qed
qed

lemma handle_start_times:
  assumes "inv_times c s" and "c \<le> sr_now req"
  shows "inv_times (sr_now req) (snd (handle_start req s))"
proof (cases "snd (handle_start req s) = s")
  case True
  then show ?thesis using assms inv_times_mono by simp
next
  case False
  then obtain task where e: "snd (handle_start req s) =
      s\<lparr>heap := heap s @ [task], tasks := dict_set (sr_uuid req) (length (heap s)) (tasks s),
         queue := queue s @ [length (heap s)]\<rparr>"
    and task: "status task = Queued" "created_at task = sr_now req" "started_at task = None"
      "finished_at task = None"
    by (auto simp: handle_start_def Let_def split: sum.splits prod.splits if_splits)
  have new: "times_ok (sr_now req) task"
    using task by (simp add: times_ok_def is_terminal_def)
  show ?thesis
    unfolding e inv_times_def
  proof (intro allI impI)
    fix x
    assume "x < length (heap (s\<lparr>heap := heap s @ [task],
        tasks := dict_set (sr_uuid req) (length (heap s)) (tasks s),
        queue := queue s @ [length (heap s)]\<rparr>))"
    then have x: "x < length (heap s) \<or> x = length (heap s)" by auto
    show "times_ok (sr_now req) (heap (s\<lparr>heap := heap s @ [task],
        tasks := dict_set (sr_uuid req) (length (heap s)) (tasks s),
        queue := queue s @ [length (heap s)]\<rparr>) ! x)"
    proof (cases "x < length (heap s)")
      case True
      then have "times_ok c (heap s ! x)" using assms(1) by (simp add: inv_times_def)
      then show ?thesis using True assms(2) times_ok_mono by (simp add: nth_append)
    next
      case False
      then show ?thesis using x new by simp
    qed
  qed
qed

lemma step_times:
  assumes "sched_inv s" and "inv_times c s" and "\<forall>t. reading e = Some t \<longrightarrow> c \<le> t"
  shows "inv_times (clock_after c e) (step e s)"
proof (cases e)
  case (Start req)
  then show ?thesis using assms handle_start_times [of c s req] by (simp add: clock_after_def)
next
  case (Cancel sender args now)
  then show ?thesis
    using assms handle_cancel_times [of s c now sender args] by (simp add: clock_after_def)
next
  case (AdminCancel args now)
  then show ?thesis
    using assms admin_cancel_times [of s c now args] by (simp add: clock_after_def)
next
  case (Cleanup now)
  then show ?thesis using assms cleanup_tasks_times [of c s now] by (simp add: clock_after_def)
next
  case (WorkerGet i now)
  then show ?thesis using assms worker_get_times [of s c now i] by (simp add: clock_after_def)
next
  case (StartSent i ok)
  then show ?thesis using assms start_sent_times [of c s i ok] by (simp add: clock_after_def)
next
  case (ExecDone i outcome cname now)
  then show ?thesis
    using assms exec_done_times [of s c now i outcome cname] by (simp add: clock_after_def)
next
  case (ReportSent i ok)
  then show ?thesis using assms report_sent_times [of c s i ok] by (simp add: clock_after_def)
qed

lemma stable_refl: "stable t t"
  by (simp add: stable_def)

lemma request_cancel_stable:
  assumes "\<not> is_terminal (heap s ! a)" and "x < length (heap s)"
  shows "x < length (heap (snd (request_cancel a now s)))
       \<and> stable (heap s ! x) (heap (snd (request_cancel a now s)) ! x)"
  using assms
  by (cases "x = a") (auto simp: request_cancel_def Let_def stable_def)

lemma handle_cancel_stable:
  assumes "x < length (heap s)"
  shows "x < length (heap (snd (handle_cancel sender args now s)))
       \<and> stable (heap s ! x) (heap (snd (handle_cancel sender args now s)) ! x)"
proof (cases args)
  case Nil
  then show ?thesis using assms by (simp add: handle_cancel_def stable_refl)
next
  case (Cons tid others)
  show ?thesis
  proof (cases "map_of (tasks s) tid")
    case None
    then show ?thesis using assms Cons by (simp add: handle_cancel_def stable_refl)
  next
    case (Some a)
    then show ?thesis
      using assms Cons request_cancel_stable [of s a x now]
      by (simp add: handle_cancel_def stable_refl)
  qed
qed

lemma admin_cancel_stable:
  assumes "x < length (heap s)"
  shows "x < length (heap (snd (admin_cancel args now s)))
       \<and> stable (heap s ! x) (heap (snd (admin_cancel args now s)) ! x)"
proof (cases args)
  case Nil
  then show ?thesis using assms by (simp add: admin_cancel_def stable_refl)
next
  case (Cons tid others)
  show ?thesis
  proof (cases "map_of (tasks s) tid")
    case None
    then show ?thesis using assms Cons by (simp add: admin_cancel_def stable_refl)
  next
    case (Some a)
    then show ?thesis
      using assms Cons request_cancel_stable [of s a x now]
      by (simp add: admin_cancel_def stable_refl)
  qed
qed

lemma handle_start_stable:
  assumes "x < length (heap s)"
  shows "x < length (heap (snd (handle_start req s)))
       \<and> stable (heap s ! x) (heap (snd (handle_start req s)) ! x)"
  using assms
  by (auto simp: handle_start_def Let_def nth_append stable_refl split: sum.splits prod.splits)

lemma exec_done_stable:
  assumes "sched_inv s" and "x < length (heap s)"
  shows "x < length (heap (exec_done i outcome cname now s))
       \<and> stable (heap s ! x) (heap (exec_done i outcome cname now s) ! x)"
proof (cases "i < length (workers s) \<and> (\<exists>a. workers s ! i = Executing a)")
  case False
  then have "exec_done i outcome cname now s = s"
    by (auto simp: exec_done_def split: worker.splits)
  then show ?thesis using assms by (simp add: stable_refl)
next
  case True
  then obtain a where i: "i < length (workers s)" and wi: "workers s ! i = Executing a"
    by blast
  have e: "exec_done i outcome cname now s =
      s\<lparr>heap := (heap s)[a := finish_task outcome cname now (heap s ! a)],
         workers := (workers s)[i := Reporting a]\<rparr>"
    using i wi by (simp add: exec_done_def)
  have iw: "inv_workers s" using assms(1) by (simp add: sched_inv_def)
  have ha: "status (heap s ! a) = Running \<or> status (heap s ! a) = Canceling"
    using iw i wi unfolding inv_workers_def by (metis held.simps(2))
  have "stable (heap s ! a) (finish_task outcome cname now (heap s ! a))"
    using ha by (auto simp: stable_def finish_task_def is_terminal_def split: sum.splits)
  then show ?thesis
    unfolding e using assms(2) by (cases "x = a") (simp_all add: stable_refl)
qed

lemma worker_get_stable:
  assumes "sched_inv s" and "inv_times c s" and "x < length (heap s)"
  shows "x < length (heap (worker_get i now s))
       \<and> stable (heap s ! x) (heap (worker_get i now s) ! x)"
proof (cases "i < length (workers s) \<and> workers s ! i = Idle \<and> queue s \<noteq> []")
  case False
  then have "worker_get i now s = s"
    by (auto simp: worker_get_def split: list.splits)
  then show ?thesis using assms by (simp add: stable_refl)
next
  case True
  then obtain a rest where i: "i < length (workers s)" and wi: "workers s ! i = Idle"
    and q: "queue s = a # rest"
    by (cases "queue s") auto
  have iq: "inv_queue s" using assms(1) by (simp add: sched_inv_def)
  have ha: "a < length (heap s)"
    "status (heap s ! a) = (if cancel_event (heap s ! a) then Canceled else Queued)"
    using iq q by (simp_all add: inv_queue_def)
  have t: "times_ok c (heap s ! a)" using assms(2) ha(1) by (simp add: inv_times_def)
  show ?thesis
  proof (cases "cancel_event (heap s ! a)")
    case True
    have e: "worker_get i now s =
        s\<lparr>heap := (heap s)[a := (heap s ! a)\<lparr>status := Canceled, finished_at := Some now\<rparr>],
           queue := rest\<rparr>"
      using i wi q True by (simp add: worker_get_def)
    have "stable (heap s ! a) ((heap s ! a)\<lparr>status := Canceled, finished_at := Some now\<rparr>)"
      using ha(2) True by (simp add: stable_def)
    then show ?thesis
      unfolding e using assms(3) by (cases "x = a") (simp_all add: stable_refl)
  next
    case False
    have e: "worker_get i now s =
        s\<lparr>heap := (heap s)[a := (heap s ! a)\<lparr>status := Running, started_at := Some now\<rparr>],
           queue := rest, workers := (workers s)[i := Starting a]\<rparr>"
      using i wi q False by (simp add: worker_get_def)
    have sa: "status (heap s ! a) = Queued" using ha(2) False by simp
    have "stable (heap s ! a) ((heap s ! a)\<lparr>status := Running, started_at := Some now\<rparr>)"
      using sa t by (simp add: stable_def times_ok_def is_terminal_def)
    then show ?thesis
      unfolding e using assms(3) by (cases "x = a") (simp_all add: stable_refl)
  qed
qed

lemma step_stable:
  assumes "sched_inv s" and "inv_times c s" and "x < length (heap s)"
  shows "x < length (heap (step e s)) \<and> stable (heap s ! x) (heap (step e s) ! x)"
proof (cases e)
  case (Start req)
  then show ?thesis using assms(3) handle_start_stable [of x s req] by simp
next
  case (Cancel sender args now)
  then show ?thesis using assms(3) handle_cancel_stable [of x s sender args now] by simp
next
  case (AdminCancel args now)
  then show ?thesis using assms(3) admin_cancel_stable [of x s args now] by simp
next
  case (Cleanup now)
  then show ?thesis using assms(3) by (simp add: cleanup_tasks_def stable_refl)
next
  case (WorkerGet i now)
  then show ?thesis using assms worker_get_stable [of s c x i now] by simp
next
  case (StartSent i ok)
  then show ?thesis
    using assms(3) by (simp add: start_sent_def stable_refl split: worker.splits)
next
  case (ExecDone i outcome cname now)
  then show ?thesis using assms exec_done_stable [of s x i outcome cname now] by simp
next
  case (ReportSent i ok)
  then show ?thesis
    using assms(3) by (simp add: report_sent_def stable_refl split: worker.splits)
qed

lemma readings_append: "readings (xs @ ys) = readings xs @ readings ys"
  by (induction xs) (simp_all split: option.splits)

lemma run_append: "run (xs @ ys) s = run ys (run xs s)"
  by (induction xs arbitrary: s) simp_all

lemma run_times:
  "sched_inv s \<Longrightarrow> inv_times c s \<Longrightarrow> sorted (c # readings evs) \<Longrightarrow>
   inv_times (last (c # readings evs)) (run evs s)"
proof (induction evs arbitrary: s c)
  case Nil
  then show ?case by simp
next
  case (Cons e evs)
  show ?case
  proof (cases "reading e")
    case None
    have "inv_times c (step e s)"
      using step_times [OF Cons.prems(1,2), of e] None by (simp add: clock_after_def)
    moreover have "sorted (c # readings evs)" using Cons.prems(3) None by simp
    ultimately have "inv_times (last (c # readings evs)) (run evs (step e s))"
      using Cons.IH [of "step e s" c] step_inv [OF Cons.prems(1)] by blast
    then show ?thesis using None by simp
  next
    case (Some t)
    have ct: "c \<le> t" and st: "sorted (t # readings evs)"
      using Cons.prems(3) Some by simp_all
    have "inv_times t (step e s)"
      using step_times [OF Cons.prems(1,2), of e] Some ct by (simp add: clock_after_def)
    then have "inv_times (last (t # readings evs)) (run evs (step e s))"
      using Cons.IH [of "step e s" t] step_inv [OF Cons.prems(1)] st by blast
    then show ?thesis using Some by simp
  qed
qed

lemma init_times: "inv_times c (init_scheduler v)"
  by (simp add: inv_times_def init_scheduler_def)

lemma reachable_times:
  assumes "sorted (readings evs)"
  shows "\<exists>c. inv_times c (run evs (init_scheduler v))"
proof (cases "readings evs")
  case Nil
  have "inv_times (last (0 # readings evs)) (run evs (init_scheduler v))"
    by (rule run_times [OF init_inv init_times]) (simp add: Nil)
  then show ?thesis by blast
next
  case (Cons t ts)
  have "sorted (t # readings evs)" using assms Cons by simp
  then have "inv_times (last (t # readings evs)) (run evs (init_scheduler v))"
    by (rule run_times [OF init_inv init_times])
  then show ?thesis by blast
qed

text \<open>
  Claim C8, as the code has it. With clock readings that never go back, in every state
  the scheduler reaches and for every task object: a terminal task has its finishing
  time, not before its creation, and when it has a starting time the three are in
  order (created, started, finished); a completed or failed task has a starting time.
  Whatever happens next, the creation time stays as it is, a starting time once set
  stays as it is, and a terminal status (completed, failed or canceled) stays as it is.
  A task canceled while it waits never gets a starting time.
\<close>

theorem task_times_and_final_status:
  assumes "sorted (readings evs)" and "a < length (heap (run evs (init_scheduler v)))"
  shows "(is_terminal (heap (run evs (init_scheduler v)) ! a) \<longrightarrow>
           (\<exists>f. finished_at (heap (run evs (init_scheduler v)) ! a) = Some f
              \<and> created_at (heap (run evs (init_scheduler v)) ! a) \<le> f
              \<and> (\<forall>b. started_at (heap (run evs (init_scheduler v)) ! a) = Some b \<longrightarrow>
                    created_at (heap (run evs (init_scheduler v)) ! a) \<le> b \<and> b \<le> f)))
       \<and> (status (heap (run evs (init_scheduler v)) ! a) = Completed
            \<or> status (heap (run evs (init_scheduler v)) ! a) = Failed \<longrightarrow>
          started_at (heap (run evs (init_scheduler v)) ! a) \<noteq> None)
       \<and> a < length (heap (run (evs @ [e]) (init_scheduler v)))
       \<and> created_at (heap (run (evs @ [e]) (init_scheduler v)) ! a)
           = created_at (heap (run evs (init_scheduler v)) ! a)
       \<and> (started_at (heap (run evs (init_scheduler v)) ! a) \<noteq> None \<longrightarrow>
            started_at (heap (run (evs @ [e]) (init_scheduler v)) ! a)
              = started_at (heap (run evs (init_scheduler v)) ! a))
       \<and> (is_terminal (heap (run evs (init_scheduler v)) ! a) \<longrightarrow>
            status (heap (run (evs @ [e]) (init_scheduler v)) ! a)
              = status (heap (run evs (init_scheduler v)) ! a))"
proof -
  let ?s = "run evs (init_scheduler v)"
  have si: "sched_inv ?s" by (rule run_inv [OF init_inv])
  obtain c where ti: "inv_times c ?s" using reachable_times [OF assms(1)] by blast
  have t: "times_ok c (heap ?s ! a)" using ti assms(2) by (simp add: inv_times_def)
  have r: "run (evs @ [e]) (init_scheduler v) = step e ?s" by (simp add: run_append)
  have st: "a < length (heap (step e ?s)) \<and> stable (heap ?s ! a) (heap (step e ?s) ! a)"
    by (rule step_stable [OF si ti assms(2)])
  have 1: "is_terminal (heap ?s ! a) \<longrightarrow>
           (\<exists>f. finished_at (heap ?s ! a) = Some f \<and> created_at (heap ?s ! a) \<le> f
              \<and> (\<forall>b. started_at (heap ?s ! a) = Some b \<longrightarrow>
                    created_at (heap ?s ! a) \<le> b \<and> b \<le> f))"
    using t by (auto simp: times_ok_def split: option.splits)
  have 2: "status (heap ?s ! a) = Completed \<or> status (heap ?s ! a) = Failed \<longrightarrow>
          started_at (heap ?s ! a) \<noteq> None"
    using t by (simp add: times_ok_def)
  show ?thesis
    unfolding r using 1 2 st by (simp add: stable_def)
qed

theorem task_times_and_final_status_witness:
  "sorted (readings [Start (demo_start ''10001'' ''0a1b2c3d'' 100), WorkerGet 0 101,
        StartSent 0 True, ExecDone 0 (Inr (finalize initial_acc)) (Some ''Course'') 105])
   \<and> status (heap (run [Start (demo_start ''10001'' ''0a1b2c3d'' 100), WorkerGet 0 101,
        StartSent 0 True, ExecDone 0 (Inr (finalize initial_acc)) (Some ''Course'') 105]
        (init_scheduler 3)) ! 0) = Completed
   \<and> created_at (heap (run [Start (demo_start ''10001'' ''0a1b2c3d'' 100), WorkerGet 0 101,
        StartSent 0 True, ExecDone 0 (Inr (finalize initial_acc)) (Some ''Course'') 105]
        (init_scheduler 3)) ! 0) = 100
   \<and> started_at (heap (run [Start (demo_start ''10001'' ''0a1b2c3d'' 100), WorkerGet 0 101,
        StartSent 0 True, ExecDone 0 (Inr (finalize initial_acc)) (Some ''Course'') 105]
        (init_scheduler 3)) ! 0) = Some 101
   \<and> finished_at (heap (run [Start (demo_start ''10001'' ''0a1b2c3d'' 100), WorkerGet 0 101,
        StartSent 0 True, ExecDone 0 (Inr (finalize initial_acc)) (Some ''Course'') 105]
        (init_scheduler 3)) ! 0) = Some 105
   \<and> status (heap (run ([Start (demo_start ''10001'' ''0a1b2c3d'' 100), WorkerGet 0 101,
        StartSent 0 True, ExecDone 0 (Inr (finalize initial_acc)) (Some ''Course'') 105]
        @ [Cancel ''10001'' [''0a1b2c3d''] 106]) (init_scheduler 3)) ! 0) = Completed"
proof -
  let ?evs = "[Start (demo_start ''10001'' ''0a1b2c3d'' 100), WorkerGet 0 101,
        StartSent 0 True, ExecDone 0 (Inr (finalize initial_acc)) (Some ''Course'') 105]"
  have s: "sorted (readings ?evs)" by (simp add: demo_start_def)
  have h: "heap (run ?evs (init_scheduler 3)) =
      [\<lparr>task_id = ''0a1b2c3d'', qq_id = ''10001'', sender_name = ''Alice'', umo = ''private'',
        course_id = Some 7, course_name = Some ''Course'', mode = ModeAll, spec = [],
        status = Completed, created_at = 100, started_at = Some 101, finished_at = Some 105,
        cancel_event = False, summary = res_summary (finalize initial_acc), error = None\<rparr>]"
    by (simp add: demo_start_def handle_start_def has_active_task_def init_scheduler_def
        max_concurrency_def worker_get_def start_sent_def exec_done_def finish_task_def
        finalize_def initial_acc_def reason_set_def)
  have l: "0 < length (heap (run ?evs (init_scheduler 3)))" unfolding h by simp
  show ?thesis
    using task_times_and_final_status [OF s l, of "Cancel ''10001'' [''0a1b2c3d''] 106"] s
    unfolding h by (simp add: is_terminal_def)
qed

text \<open>
  The claim as written gives every terminal task a starting time between its creation
  and its end, each time being set once. A task canceled in the queue is terminal
  with no starting time, and the worker that later takes it from the queue writes its
  finishing time a second time.
\<close>

theorem canceled_while_queued_never_started:
  "status (heap (run [Start (demo_start ''10001'' ''0a1b2c3d'' 100),
        Cancel ''10001'' [''0a1b2c3d''] 101] (init_scheduler 3)) ! 0) = Canceled
   \<and> started_at (heap (run [Start (demo_start ''10001'' ''0a1b2c3d'' 100),
        Cancel ''10001'' [''0a1b2c3d''] 101] (init_scheduler 3)) ! 0) = None
   \<and> finished_at (heap (run [Start (demo_start ''10001'' ''0a1b2c3d'' 100),
        Cancel ''10001'' [''0a1b2c3d''] 101] (init_scheduler 3)) ! 0) = Some 101
   \<and> started_at (heap (run [Start (demo_start ''10001'' ''0a1b2c3d'' 100),
        Cancel ''10001'' [''0a1b2c3d''] 101, WorkerGet 0 105] (init_scheduler 3)) ! 0) = None
   \<and> finished_at (heap (run [Start (demo_start ''10001'' ''0a1b2c3d'' 100),
        Cancel ''10001'' [''0a1b2c3d''] 101, WorkerGet 0 105] (init_scheduler 3)) ! 0) = Some 105"
  by (simp add: demo_start_def handle_start_def has_active_task_def init_scheduler_def
      max_concurrency_def handle_cancel_def request_cancel_def is_terminal_def worker_get_def
      Let_def)

end
